theory Spec2Isabelle
  imports Complex_Main "HOL-Library.Signed_Division"
begin

section \<open>The file header of the Nachos file system (filesys/filehdr.cc)\<close>

text \<open>
  The file header maps the bytes of a file to disk sectors. It holds the length of the
  file, the number of its sectors and a table of \<open>NumDirect\<close> sector numbers; when the
  file is longer than \<open>NumDirect - 1\<close> sectors, the last entry of the table is the
  sector of a further header that describes the rest of the file.

  Integers are the C type \<open>int\<close>. They are modelled as \<open>int\<close>: the only arithmetic of
  the source is \<open>fileSize - (NumDirect-1)*SectorSize\<close> under the test
  \<open>fileSize > (NumDirect-1)*SectorSize\<close>, the same on \<open>offset\<close>, a division by the
  sector size and the increment of a loop counter below its bound, none of which can
  leave the range of \<open>int\<close> for constants of the size of a disk sector.
\<close>

subsection \<open>Constants and data\<close>

text \<open>
  The constants \<open>SectorSize\<close>, \<open>NumDirect\<close> and \<open>MaxFileSize\<close> are macros of headers
  that are not among the sources (disk.h, filehdr.h); they are parameters here.
\<close>

record config =
  SectorSize :: int
  NumDirect :: int
  MaxFileSize :: int

text \<open>
  The fields of class \<open>FileHeader\<close> that filehdr.cc reads and writes (filehdr.h is
  not among the sources). The member \<open>indirect\<close> points to a header object in memory
  that every use but the one right after \<open>new\<close> in \<open>Allocate\<close> and \<open>Extend\<close> first
  overwrites with \<open>FetchFrom\<close>; its contents are never carried from one call to the
  next, so it is no field here, and the pointer is taken to be valid wherever the source
  follows it.
\<close>

record FileHeader =
  numBytes :: int
  numSectors :: int
  dataSectors :: "int list"

datatype error = AssertionFailed | BadSector | ArrayIndex

text \<open>A free map is its bits, \<open>True\<close> for a sector in use; a disk holds one header image per sector.\<close>

type_synonym BitMap = "bool list"

type_synonym Disk = "int \<Rightarrow> FileHeader"

subsection \<open>Collaborators\<close>

text \<open>
  Modelled from the spec: the macro \<open>divRoundUp\<close> (utility.h is not among the sources).
  The spec gives the number of sectors as \<open>ceil(bytes / sector_size)\<close>; this is that
  ceiling in integer arithmetic.
\<close>

definition divRoundUp :: "int \<Rightarrow> int \<Rightarrow> int" where
  "divRoundUp n s = - ((- n) div s)"

text \<open>
  Modelled from the spec: class \<open>BitMap\<close> (bitmap.cc is not among the sources), of which
  the spec gives \<open>Find() -> sector or none\<close>, \<open>Test(sector) -> bool\<close>,
  \<open>Clear(sector)\<close> and \<open>NumClear() -> count\<close>, where a sector that \<open>Find\<close> returns is
  marked in use by the call. \<open>Find\<close> takes the lowest clear bit. The source stores its
  result in an \<open>int\<close> unchecked, so "none" is an \<open>int\<close> that is no sector: \<open>-1\<close>.
  \<open>Test\<close> and \<open>Clear\<close> are defined on the sectors of the map only.
\<close>

fun firstClear :: "bool list \<Rightarrow> nat option" where
  "firstClear [] = None"
| "firstClear (b # bs) = (if b then map_option Suc (firstClear bs) else Some 0)"

definition Find :: "BitMap \<Rightarrow> int \<times> BitMap" where
  "Find fm = (case firstClear fm of None \<Rightarrow> (- 1, fm) | Some i \<Rightarrow> (int i, fm[i := True]))"

definition NumClear :: "BitMap \<Rightarrow> int" where
  "NumClear fm = int (length (filter Not fm))"

definition Test :: "BitMap \<Rightarrow> int \<Rightarrow> error + bool" where
  "Test fm s = (if 0 \<le> s \<and> s < int (length fm) then Inr (fm ! nat s) else Inl BadSector)"

definition Clear :: "BitMap \<Rightarrow> int \<Rightarrow> error + BitMap" where
  "Clear fm s = (if 0 \<le> s \<and> s < int (length fm) then Inr (fm[nat s := False]) else Inl BadSector)"

text \<open>
  Modelled from the spec: the synchronous disk (synchdisk.cc and disk.cc are not among the
  sources), of which the spec gives \<open>ReadSector(sector, buf)\<close> and
  \<open>WriteSector(sector, buf)\<close>, each moving one sector, and says that a header image fills
  exactly one sector. A read returns what was last written. The spec gives the disk no
  size: every sector number from 0 is a sector, and \<open>-1\<close>, the "none" of \<open>Find\<close>, is not.
\<close>

definition ReadSector :: "Disk \<Rightarrow> int \<Rightarrow> error + FileHeader" where
  "ReadSector dk s = (if 0 \<le> s then Inr (dk s) else Inl BadSector)"

definition WriteSector :: "Disk \<Rightarrow> int \<Rightarrow> FileHeader \<Rightarrow> error + Disk" where
  "WriteSector dk s h = (if 0 \<le> s then Inr (dk(s := h)) else Inl BadSector)"

text \<open>
  Modelled from the spec: the object that \<open>new FileHeader\<close> yields (filehdr.h is not
  among the sources). The spec creates a node with zero sectors and zero length; the
  table has \<open>NumDirect\<close> entries.
\<close>

definition newFileHeader :: "config \<Rightarrow> FileHeader" where
  "newFileHeader cfg =
     \<lparr>numBytes = 0, numSectors = 0, dataSectors = replicate (nat (NumDirect cfg)) 0\<rparr>"

subsection \<open>FetchFrom, WriteBack, FileLength\<close>

definition FetchFrom :: "Disk \<Rightarrow> int \<Rightarrow> error + FileHeader" where
  "FetchFrom dk sector = ReadSector dk sector"

definition WriteBack :: "FileHeader \<Rightarrow> Disk \<Rightarrow> int \<Rightarrow> error + Disk" where
  "WriteBack h dk sector = WriteSector dk sector h"

definition FileLength :: "FileHeader \<Rightarrow> int" where
  "FileLength h = numBytes h"

subsection \<open>Allocate\<close>

text \<open>
  The loop \<open>for (i = lo; i < n; i++) dataSectors[i] = freeMap->Find();\<close> of \<open>Allocate\<close>
  and \<open>Extend\<close>. A store outside the table is the outcome \<open>ArrayIndex\<close>.
\<close>

function FindLoop :: "int \<Rightarrow> int \<Rightarrow> int list \<Rightarrow> BitMap \<Rightarrow> error + (int list \<times> BitMap)" where
  "FindLoop i n ds fm =
     (if i < n then
        (case Find fm of (s, fm') \<Rightarrow>
           if 0 \<le> i \<and> i < int (length ds) then FindLoop (i + 1) n (ds[nat i := s]) fm'
           else Inl ArrayIndex)
      else Inr (ds, fm))"
  by pat_completeness auto
termination
  by (relation "measure (\<lambda>(i, n, ds, fm). nat (n - i))") auto

declare FindLoop.simps [simp del]

text \<open>
  \<open>Allocate\<close> returns the flag of the source with the header, the free map and the disk
  as the call leaves them. The recursion on the rest of the file does not end when
  \<open>(NumDirect-1)*SectorSize\<close> is not positive; not returning is the value \<open>None\<close>.
\<close>

partial_function (option) Allocate ::
  "config \<Rightarrow> FileHeader \<Rightarrow> BitMap \<Rightarrow> Disk \<Rightarrow> int \<Rightarrow>
     (error + bool \<times> FileHeader \<times> BitMap \<times> Disk) option"
where
  "Allocate cfg h fm dk fileSize =
    (if fileSize > MaxFileSize cfg then Some (Inr (False, h, fm, dk))
     else
       let h1 = h\<lparr>numBytes := fileSize, numSectors := divRoundUp fileSize (SectorSize cfg)\<rparr> in
       if NumClear fm < numSectors h1 then Some (Inr (False, h1, fm, dk))
       else if fileSize > (NumDirect cfg - 1) * SectorSize cfg then
         (case FindLoop 0 (NumDirect cfg - 1) (dataSectors h1) fm of
            Inl e \<Rightarrow> Some (Inl e)
          | Inr (ds, fm1) \<Rightarrow>
              Option.bind
                (Allocate cfg (newFileHeader cfg) fm1 dk
                   (fileSize - (NumDirect cfg - 1) * SectorSize cfg))
                (\<lambda>r. case r of
                   Inl e \<Rightarrow> Some (Inl e)
                 | Inr (ok, child, fm2, dk2) \<Rightarrow>
                     if \<not> ok then Some (Inr (False, h1\<lparr>dataSectors := ds\<rparr>, fm2, dk2))
                     else
                       (case Find fm2 of (s, fm3) \<Rightarrow>
                          (case WriteBack child dk2 s of
                             Inl e \<Rightarrow> Some (Inl e)
                           | Inr dk3 \<Rightarrow>
                               Some (Inr (True,
                                 h1\<lparr>dataSectors := ds[nat (NumDirect cfg - 1) := s]\<rparr>,
                                 fm3, dk3))))))
       else
         (case FindLoop 0 (numSectors h1) (dataSectors h1) fm of
            Inl e \<Rightarrow> Some (Inl e)
          | Inr (ds, fm1) \<Rightarrow> Some (Inr (True, h1\<lparr>dataSectors := ds\<rparr>, fm1, dk))))"

declare Allocate.simps [code]

subsection \<open>Extend\<close>

text \<open>
  The result of \<open>indirect->Allocate\<close> in the branch "from direct to indirect" is not
  looked at by the source, and is not here.
\<close>

partial_function (option) Extend ::
  "config \<Rightarrow> FileHeader \<Rightarrow> BitMap \<Rightarrow> Disk \<Rightarrow> int \<Rightarrow>
     (error + bool \<times> FileHeader \<times> BitMap \<times> Disk) option"
where
  "Extend cfg h fm dk fileSize =
    (let newNumBytes = fileSize; newNumSectors = divRoundUp fileSize (SectorSize cfg) in
     if newNumSectors > MaxFileSize cfg then Some (Inr (False, h, fm, dk))
     else if NumClear fm < newNumSectors then Some (Inr (False, h, fm, dk))
     else if fileSize > (NumDirect cfg - 1) * SectorSize cfg then
       (if numBytes h \<le> (NumDirect cfg - 1) * SectorSize cfg then
          (case FindLoop (numSectors h) (NumDirect cfg - 1) (dataSectors h) fm of
             Inl e \<Rightarrow> Some (Inl e)
           | Inr (ds, fm1) \<Rightarrow>
               (case Allocate cfg (newFileHeader cfg) fm1 dk
                       (fileSize - (NumDirect cfg - 1) * SectorSize cfg) of
                  None \<Rightarrow> None
                | Some (Inl e) \<Rightarrow> Some (Inl e)
                | Some (Inr (ok, child, fm2, dk2)) \<Rightarrow>
                    (case Find fm2 of (s, fm3) \<Rightarrow>
                       (case WriteBack child dk2 s of
                          Inl e \<Rightarrow> Some (Inl e)
                        | Inr dk3 \<Rightarrow>
                            Some (Inr (True,
                              h\<lparr>numBytes := newNumBytes, numSectors := newNumSectors,
                                dataSectors := ds[nat (NumDirect cfg - 1) := s]\<rparr>,
                              fm3, dk3))))))
        else
          (case FetchFrom dk (dataSectors h ! nat (NumDirect cfg - 1)) of
             Inl e \<Rightarrow> Some (Inl e)
           | Inr child \<Rightarrow>
               Option.bind
                 (Extend cfg child fm dk (fileSize - (NumDirect cfg - 1) * SectorSize cfg))
                 (\<lambda>r. case r of
                    Inl e \<Rightarrow> Some (Inl e)
                  | Inr (ok, child', fm1, dk1) \<Rightarrow>
                      if \<not> ok then Some (Inr (False, h, fm1, dk1))
                      else
                        (case WriteBack child' dk1 (dataSectors h ! nat (NumDirect cfg - 1)) of
                           Inl e \<Rightarrow> Some (Inl e)
                         | Inr dk2 \<Rightarrow>
                             Some (Inr (True,
                               h\<lparr>numBytes := newNumBytes, numSectors := newNumSectors\<rparr>,
                               fm1, dk2))))))
     else
       (case FindLoop (numSectors h) newNumSectors (dataSectors h) fm of
          Inl e \<Rightarrow> Some (Inl e)
        | Inr (ds, fm1) \<Rightarrow>
            Some (Inr (True,
              h\<lparr>numBytes := newNumBytes, numSectors := newNumSectors, dataSectors := ds\<rparr>,
              fm1, dk))))"

declare Extend.simps [code]

subsection \<open>Deallocate\<close>

text \<open>
  \<open>Deallocate\<close> reads the header and the disk and changes the free map only, which is
  what it returns. A failed \<open>ASSERT\<close> is the outcome \<open>AssertionFailed\<close>. First the two
  statements \<open>ASSERT(freeMap->Test(s)); freeMap->Clear(s);\<close>.
\<close>

definition AssertClear :: "BitMap \<Rightarrow> int \<Rightarrow> error + BitMap" where
  "AssertClear fm s =
     (case Test fm s of
        Inl e \<Rightarrow> Inl e
      | Inr b \<Rightarrow> if b then Clear fm s else Inl AssertionFailed)"

function ClearLoop :: "int \<Rightarrow> int \<Rightarrow> int list \<Rightarrow> BitMap \<Rightarrow> error + BitMap" where
  "ClearLoop i n ds fm =
     (if i < n then
        (if 0 \<le> i \<and> i < int (length ds) then
           (case AssertClear fm (ds ! nat i) of
              Inl e \<Rightarrow> Inl e
            | Inr fm' \<Rightarrow> ClearLoop (i + 1) n ds fm')
         else Inl ArrayIndex)
      else Inr fm)"
  by pat_completeness auto
termination
  by (relation "measure (\<lambda>(i, n, ds, fm). nat (n - i))") auto

declare ClearLoop.simps [simp del]

partial_function (option) Deallocate ::
  "config \<Rightarrow> FileHeader \<Rightarrow> BitMap \<Rightarrow> Disk \<Rightarrow> (error + BitMap) option"
where
  "Deallocate cfg h fm dk =
    (if numSectors h \<le> NumDirect cfg then
       Some (ClearLoop 0 (numSectors h) (dataSectors h) fm)
     else
       (case ClearLoop 0 (NumDirect cfg - 1) (dataSectors h) fm of
          Inl e \<Rightarrow> Some (Inl e)
        | Inr fm1 \<Rightarrow>
            (case FetchFrom dk (dataSectors h ! nat (NumDirect cfg - 1)) of
               Inl e \<Rightarrow> Some (Inl e)
             | Inr child \<Rightarrow>
                 Option.bind (Deallocate cfg child fm1 dk)
                   (\<lambda>r. case r of
                      Inl e \<Rightarrow> Some (Inl e)
                    | Inr fm2 \<Rightarrow>
                        Some (AssertClear fm2 (dataSectors h ! nat (NumDirect cfg - 1)))))))"

declare Deallocate.simps [code]

subsection \<open>ByteToSector\<close>

text \<open>
  The division is C's, which truncates. A read outside the table is the outcome
  \<open>ArrayIndex\<close>. On a disk whose headers point to each other in a circle the source
  does not return; that is the value \<open>None\<close>.
\<close>

definition ArrayLoad :: "int list \<Rightarrow> int \<Rightarrow> error + int" where
  "ArrayLoad ds i = (if 0 \<le> i \<and> i < int (length ds) then Inr (ds ! nat i) else Inl ArrayIndex)"

partial_function (option) ByteToSector ::
  "config \<Rightarrow> FileHeader \<Rightarrow> Disk \<Rightarrow> int \<Rightarrow> (error + int) option"
where
  "ByteToSector cfg h dk offset =
    (if numSectors h \<le> NumDirect cfg - 1 then
       Some (ArrayLoad (dataSectors h) (offset sdiv SectorSize cfg))
     else
       (case FetchFrom dk (dataSectors h ! nat (NumDirect cfg - 1)) of
          Inl e \<Rightarrow> Some (Inl e)
        | Inr child \<Rightarrow>
            ByteToSector cfg child dk (offset - (NumDirect cfg - 1) * SectorSize cfg)))"

declare ByteToSector.simps [code]

text \<open>
  \<open>Print\<close> reads the header and the disk and writes to the console; it changes
  neither and is not modelled.
\<close>

subsection \<open>Examples\<close>

text \<open>
  The constants of the spec's scenarios: sectors of 128 bytes and a table of 30 entries.
  The spec names no maximum file size; the examples take the 30 sectors of one table.
  The example disk holds a new header in every sector.
\<close>

definition exampleConfig :: config where
  "exampleConfig = \<lparr>SectorSize = 128, NumDirect = 30, MaxFileSize = 3840\<rparr>"

definition exampleDisk :: Disk where
  "exampleDisk = (\<lambda>_. newFileHeader exampleConfig)"

subsection \<open>Notions of the statements\<close>

text \<open>
  The constants for which the statements are made: sectors have a positive size and the
  table has a direct entry besides its last one.
\<close>

definition cfg_ok :: "config \<Rightarrow> bool" where
  "cfg_ok cfg = (0 < SectorSize cfg \<and> 2 \<le> NumDirect cfg)"

text \<open>The sectors that a free map marks as in use.\<close>

definition marked :: "BitMap \<Rightarrow> int set" where
  "marked fm = {s. 0 \<le> s \<and> s < int (length fm) \<and> fm ! nat s}"

text \<open>The free map after \<open>k\<close> calls of \<open>Find\<close>.\<close>

primrec claimN :: "nat \<Rightarrow> BitMap \<Rightarrow> BitMap" where
  "claimN 0 fm = fm"
| "claimN (Suc k) fm = claimN k (snd (Find fm))"

text \<open>
  A file of \<open>n\<close> bytes is laid out as \<open>chainLen n\<close> headers behind the first one,
  each but the last holding \<open>NumDirect - 1\<close> data sectors; it takes
  \<open>consumed n\<close> sectors of the disk, its data sectors and one sector for every
  header behind the first.
\<close>

definition chainLen :: "config \<Rightarrow> int \<Rightarrow> nat" where
  "chainLen cfg n = nat ((n - 1) div ((NumDirect cfg - 1) * SectorSize cfg))"

definition consumed :: "config \<Rightarrow> int \<Rightarrow> int" where
  "consumed cfg n = divRoundUp n (SectorSize cfg) + int (chainLen cfg n)"

text \<open>
  \<open>linked cfg dk d h\<close>: the header \<open>h\<close> heads a chain of \<open>d\<close> further headers on
  the disk \<open>dk\<close>. Every header of the chain has a table of \<open>NumDirect\<close> entries and
  the sector count of its length; every header but the last is longer than its direct
  part, and its last entry is the sector of the header for the rest of the file.
  \<open>inds\<close> lists the sectors of the further headers.
\<close>

fun linked :: "config \<Rightarrow> Disk \<Rightarrow> nat \<Rightarrow> FileHeader \<Rightarrow> bool" where
  "linked cfg dk 0 h =
     (0 \<le> numBytes h \<and> numBytes h \<le> (NumDirect cfg - 1) * SectorSize cfg \<and>
      numSectors h = divRoundUp (numBytes h) (SectorSize cfg) \<and>
      int (length (dataSectors h)) = NumDirect cfg)"
| "linked cfg dk (Suc d) h =
     ((NumDirect cfg - 1) * SectorSize cfg < numBytes h \<and>
      numSectors h = divRoundUp (numBytes h) (SectorSize cfg) \<and>
      int (length (dataSectors h)) = NumDirect cfg \<and>
      0 \<le> dataSectors h ! nat (NumDirect cfg - 1) \<and>
      numBytes (dk (dataSectors h ! nat (NumDirect cfg - 1))) =
        numBytes h - (NumDirect cfg - 1) * SectorSize cfg \<and>
      linked cfg dk d (dk (dataSectors h ! nat (NumDirect cfg - 1))))"

fun inds :: "config \<Rightarrow> Disk \<Rightarrow> nat \<Rightarrow> FileHeader \<Rightarrow> int list" where
  "inds cfg dk 0 h = []"
| "inds cfg dk (Suc d) h =
     dataSectors h ! nat (NumDirect cfg - 1) #
     inds cfg dk d (dk (dataSectors h ! nat (NumDirect cfg - 1)))"

text \<open>
  The last entry of the table of \<open>h\<close> is a sector in use that holds the header of
  the rest of the file: the bytes and the sectors of \<open>h\<close> beyond its direct part.
\<close>

definition lastSlotLinks :: "config \<Rightarrow> FileHeader \<Rightarrow> Disk \<Rightarrow> BitMap \<Rightarrow> bool" where
  "lastSlotLinks cfg h dk fm =
     (dataSectors h ! nat (NumDirect cfg - 1) \<in> marked fm \<and>
      (\<exists>c. FetchFrom dk (dataSectors h ! nat (NumDirect cfg - 1)) = Inr c \<and>
           numBytes c = numBytes h - (NumDirect cfg - 1) * SectorSize cfg \<and>
           numSectors c = numSectors h - (NumDirect cfg - 1)))"

section \<open>Properties\<close>

subsection \<open>The free map\<close>

lemma firstClear_None: "firstClear fm = None \<longleftrightarrow> filter Not fm = []"
  by (induction fm) auto

lemma firstClear_Some: "firstClear fm = Some i \<Longrightarrow> i < length fm \<and> \<not> fm ! i"
  by (induction fm arbitrary: i) (auto split: if_splits)

lemma filter_Not_update:
  "i < length fm \<Longrightarrow> \<not> fm ! i \<Longrightarrow>
     Suc (length (filter Not (fm[i := True]))) = length (filter Not fm)"
proof (induction fm arbitrary: i)
  case Nil
  then show ?case by simp
next
  case (Cons b bs)
  then show ?case by (cases i) auto
qed

lemma Find_none:
  assumes "NumClear fm = 0"
  shows "Find fm = (- 1, fm)"
proof -
  from assms have "firstClear fm = None"
    by (simp add: NumClear_def firstClear_None)
  then show ?thesis by (simp add: Find_def)
qed

lemma Find_some:
  assumes "0 < NumClear fm"
  shows "\<exists>i. i < length fm \<and> \<not> fm ! i \<and> Find fm = (int i, fm[i := True])"
proof -
  from assms have "firstClear fm \<noteq> None"
    by (auto simp: NumClear_def firstClear_None)
  then obtain i where i: "firstClear fm = Some i" by blast
  with firstClear_Some [OF i] show ?thesis
    by (auto simp: Find_def)
qed

lemma length_Find [simp]: "length (snd (Find fm)) = length fm"
  by (auto simp: Find_def split: option.splits)

lemma NumClear_Find:
  "0 < NumClear fm \<Longrightarrow> NumClear (snd (Find fm)) = NumClear fm - 1"
  using Find_some [of fm] filter_Not_update [of _ fm]
  by (fastforce simp: NumClear_def)

lemma NumClear_nonneg [simp]: "0 \<le> NumClear fm"
  by (simp add: NumClear_def)

lemma NumClear_replicate: "NumClear (replicate k False) = int k"
  by (simp add: NumClear_def)

lemma marked_Find:
  assumes "0 < NumClear fm"
  shows "fst (Find fm) \<notin> marked fm \<and> 0 \<le> fst (Find fm) \<and>
         marked (snd (Find fm)) = insert (fst (Find fm)) (marked fm)"
proof -
  from Find_some [OF assms] obtain i where
    i: "i < length fm" "\<not> fm ! i" "Find fm = (int i, fm[i := True])" by blast
  have "marked (fm[i := True]) = insert (int i) (marked fm)"
    using i(1) by (auto simp: marked_def nth_list_update)
  with i show ?thesis by (simp add: marked_def)
qed

lemma claimN_add: "claimN (j + k) fm = claimN k (claimN j fm)"
  by (induction j arbitrary: fm) simp_all

lemma length_claimN [simp]: "length (claimN k fm) = length fm"
  by (induction k arbitrary: fm) simp_all

lemma NumClear_claimN:
  "int k \<le> NumClear fm \<Longrightarrow> NumClear (claimN k fm) = NumClear fm - int k"
proof (induction k arbitrary: fm)
  case 0
  then show ?case by simp
next
  case (Suc k)
  then have "0 < NumClear fm" by simp
  from NumClear_Find [OF this] Suc show ?case
    by simp
qed

lemma marked_claimN_mono: "marked fm \<subseteq> marked (claimN k fm)"
proof (induction k arbitrary: fm)
  case 0
  then show ?case by simp
next
  case (Suc k)
  have "marked fm \<subseteq> marked (snd (Find fm))"
  proof (cases "0 < NumClear fm")
    case True
    with marked_Find show ?thesis by blast
  next
    case False
    then have "NumClear fm = 0" using NumClear_nonneg [of fm] by linarith
    then show ?thesis by (simp add: Find_none)
  qed
  with Suc [of "snd (Find fm)"] show ?case
    by auto
qed

lemma filter_Not_clear:
  "i < length fm \<Longrightarrow> fm ! i \<Longrightarrow>
     length (filter Not (fm[i := False])) = Suc (length (filter Not fm))"
proof (induction fm arbitrary: i)
  case Nil
  then show ?case by simp
next
  case (Cons b bs)
  then show ?case by (cases i) auto
qed

lemma AssertClear_marked:
  assumes "s \<in> marked fm"
  shows "\<exists>fm'. AssertClear fm s = Inr fm' \<and> NumClear fm' = NumClear fm + 1 \<and>
           marked fm' = marked fm - {s}"
proof -
  from assms have r: "0 \<le> s" "s < int (length fm)" "fm ! nat s" by (simp_all add: marked_def)
  then have n: "nat s < length fm" by simp
  have a: "AssertClear fm s = Inr (fm[nat s := False])"
    using r by (simp add: AssertClear_def Test_def Clear_def)
  have b: "NumClear (fm[nat s := False]) = NumClear fm + 1"
    using filter_Not_clear [OF n r(3)] by (simp add: NumClear_def)
  have c: "marked (fm[nat s := False]) = marked fm - {s}"
    using r by (auto simp: marked_def nth_list_update)
  from a b c show ?thesis by simp
qed

subsection \<open>The loops that claim and clear sectors\<close>

lemma FindLoop_none: "\<not> i < n \<Longrightarrow> FindLoop i n ds fm = Inr (ds, fm)"
  by (subst FindLoop.simps) simp

lemma FindLoop_char:
  "0 \<le> i \<Longrightarrow> n \<le> int (length ds) \<Longrightarrow>
   \<exists>ds'. FindLoop i n ds fm = Inr (ds', claimN (nat (n - i)) fm) \<and>
         length ds' = length ds \<and>
         (\<forall>j. j < nat i \<or> nat n \<le> j \<longrightarrow> ds' ! j = ds ! j)"
proof (induction i n ds fm rule: FindLoop.induct)
  case (1 i n ds fm)
  show ?case
  proof (cases "i < n")
    case False
    then show ?thesis by (simp add: FindLoop.simps)
  next
    case True
    obtain s fm' where f: "Find fm = (s, fm')" by (cases "Find fm")
    have rng: "0 \<le> i \<and> i < int (length ds)" using True 1 by simp
    have "0 \<le> i + 1" "n \<le> int (length (ds[nat i := s]))"
      using rng "1.prems" by simp_all
    from "1.IH" [OF True f [symmetric] rng this]
    obtain ds' where
      ih: "FindLoop (i + 1) n (ds[nat i := s]) fm' = Inr (ds', claimN (nat (n - (i + 1))) fm')"
        "length ds' = length ds"
        "\<forall>j. j < nat (i + 1) \<or> nat n \<le> j \<longrightarrow> ds' ! j = ds[nat i := s] ! j"
      by auto
    have "nat (n - i) = Suc (nat (n - (i + 1)))" using True by simp
    then have "claimN (nat (n - i)) fm = claimN (nat (n - (i + 1))) fm'"
      using f by simp
    moreover have "\<forall>j. j < nat i \<or> nat n \<le> j \<longrightarrow> ds' ! j = ds ! j"
      using ih(3) True rng by (auto simp: nth_list_update)
    ultimately show ?thesis
      using True f rng ih by (subst FindLoop.simps) simp
  qed
qed

lemma FindLoop_entries:
  "0 \<le> i \<Longrightarrow> n \<le> int (length ds) \<Longrightarrow> n - i \<le> NumClear fm \<Longrightarrow>
   FindLoop i n ds fm = Inr (ds', fm') \<Longrightarrow>
   (\<forall>j. nat i \<le> j \<and> j < nat n \<longrightarrow> ds' ! j \<in> marked fm' - marked fm) \<and>
   inj_on ((!) ds') {nat i..<nat n}"
proof (induction i n ds fm rule: FindLoop.induct)
  case (1 i n ds fm)
  show ?case
  proof (cases "i < n")
    case False
    then have "nat n \<le> nat i" by simp
    then have "{nat i..<nat n} = {}" by simp
    then show ?thesis using \<open>nat n \<le> nat i\<close> by auto
  next
    case True
    obtain s fm1 where f: "Find fm = (s, fm1)" by (cases "Find fm")
    have rng: "0 \<le> i \<and> i < int (length ds)" using True "1.prems" by simp
    have suc: "nat (i + 1) = Suc (nat i)" and ni: "nat i < length ds" using rng by linarith+
    have pos: "0 < NumClear fm" using True "1.prems"(3) by simp
    from marked_Find [OF pos] f have
      s1: "s \<notin> marked fm" and m1: "marked fm1 = insert s (marked fm)"
      by simp_all
    have nc1: "NumClear fm1 = NumClear fm - 1" using NumClear_Find [OF pos] f by simp
    have p1: "0 \<le> i + 1" and p2: "n \<le> int (length (ds[nat i := s]))"
      and p3: "n - (i + 1) \<le> NumClear fm1"
      using rng "1.prems" nc1 by simp_all
    have step: "FindLoop (i + 1) n (ds[nat i := s]) fm1 = Inr (ds', fm')"
      using "1.prems"(4) True f rng by (subst (asm) FindLoop.simps) simp
    from "1.IH" [OF True f [symmetric] rng p1 p2 p3 step] have
      ih1: "\<forall>j. nat (i + 1) \<le> j \<and> j < nat n \<longrightarrow> ds' ! j \<in> marked fm' - marked fm1"
      and ih2: "inj_on ((!) ds') {nat (i + 1)..<nat n}"
      by simp_all
    from FindLoop_char [OF p1 p2, of fm1] step have
      same: "\<forall>j. j < nat (i + 1) \<or> nat n \<le> j \<longrightarrow> ds' ! j = ds[nat i := s] ! j"
      and fm': "fm' = claimN (nat (n - (i + 1))) fm1"
      by auto
    have here: "ds' ! nat i = s" using same ni unfolding suc by simp
    have mono: "marked fm1 \<subseteq> marked fm'" unfolding fm' by (rule marked_claimN_mono)
    have e: "\<forall>j. nat i \<le> j \<and> j < nat n \<longrightarrow> ds' ! j \<in> marked fm' - marked fm"
    proof (intro allI impI)
      fix j assume j: "nat i \<le> j \<and> j < nat n"
      show "ds' ! j \<in> marked fm' - marked fm"
      proof (cases "j = nat i")
        case True
        with here s1 m1 mono show ?thesis by auto
      next
        case False
        with j have "nat (i + 1) \<le> j \<and> j < nat n" unfolding suc by simp
        with ih1 have "ds' ! j \<in> marked fm' - marked fm1" by blast
        with m1 show ?thesis by auto
      qed
    qed
    have "{nat i..<nat n} = insert (nat i) {nat (i + 1)..<nat n}"
      using True rng unfolding suc by auto
    moreover have "ds' ! nat i \<notin> (!) ds' ` ({nat (i + 1)..<nat n} - {nat i})"
    proof
      assume "ds' ! nat i \<in> (!) ds' ` ({nat (i + 1)..<nat n} - {nat i})"
      then obtain j where jj: "j \<in> {nat (i + 1)..<nat n} - {nat i}"
        and eq: "ds' ! nat i = ds' ! j" by (rule imageE)
      from jj have "nat (i + 1) \<le> j \<and> j < nat n" by simp
      with ih1 have "ds' ! j \<in> marked fm' - marked fm1" by blast
      with eq here have "s \<in> marked fm' - marked fm1" by simp
      with m1 show False by simp
    qed
    ultimately have "inj_on ((!) ds') {nat i..<nat n}"
      using ih2 by (simp add: inj_on_insert)
    with e show ?thesis by simp
  qed
qed

lemma ClearLoop_char:
  "0 \<le> i \<Longrightarrow> n \<le> int (length ds) \<Longrightarrow>
   \<forall>j. nat i \<le> j \<and> j < nat n \<longrightarrow> ds ! j \<in> marked fm \<Longrightarrow>
   inj_on ((!) ds) {nat i..<nat n} \<Longrightarrow>
   \<exists>fm'. ClearLoop i n ds fm = Inr fm' \<and> NumClear fm' = NumClear fm + int (nat (n - i))"
proof (induction i n ds fm rule: ClearLoop.induct)
  case (1 i n ds fm)
  show ?case
  proof (cases "i < n")
    case False
    then show ?thesis by (subst ClearLoop.simps) simp
  next
    case True
    have rng: "0 \<le> i \<and> i < int (length ds)" using True "1.prems" by simp
    have suc: "nat (i + 1) = Suc (nat i)" using rng by linarith
    have ii: "nat i \<le> nat i \<and> nat i < nat n" using True rng by simp
    with "1.prems"(3) have "ds ! nat i \<in> marked fm" by blast
    from AssertClear_marked [OF this] obtain fm1 where
      a: "AssertClear fm (ds ! nat i) = Inr fm1"
      and nc: "NumClear fm1 = NumClear fm + 1"
      and m: "marked fm1 = marked fm - {ds ! nat i}"
      by blast
    have p1: "0 \<le> i + 1" using rng by simp
    have p3: "\<forall>j. nat (i + 1) \<le> j \<and> j < nat n \<longrightarrow> ds ! j \<in> marked fm1"
    proof (intro allI impI)
      fix j assume j: "nat (i + 1) \<le> j \<and> j < nat n"
      from j have "nat i \<le> j \<and> j < nat n" unfolding suc by simp
      with "1.prems"(3) have jm: "ds ! j \<in> marked fm" by blast
      have "j \<in> {nat i..<nat n}" "nat i \<in> {nat i..<nat n}" "j \<noteq> nat i"
        using j ii unfolding suc by simp_all
      with "1.prems"(4) have "ds ! j \<noteq> ds ! nat i" by (auto dest: inj_onD)
      with jm m show "ds ! j \<in> marked fm1" by simp
    qed
    have p4: "inj_on ((!) ds) {nat (i + 1)..<nat n}"
      using "1.prems"(4) unfolding suc by (rule inj_on_subset) auto
    from "1.IH" [OF True rng a p1 "1.prems"(2) p3 p4] obtain fm' where
      c: "ClearLoop (i + 1) n ds fm1 = Inr fm'"
      and nc': "NumClear fm' = NumClear fm1 + int (nat (n - (i + 1)))"
      by blast
    have "ClearLoop i n ds fm = Inr fm'"
      using True rng a c by (subst ClearLoop.simps) simp
    moreover have "NumClear fm' = NumClear fm + int (nat (n - i))"
      using nc nc' True by simp
    ultimately show ?thesis by blast
  qed
qed

subsection \<open>Sector counts\<close>

lemma divRoundUp_ceiling:
  "divRoundUp n s = \<lceil>real_of_int n / real_of_int s\<rceil>"
proof -
  have "\<lfloor>real_of_int (- n) / real_of_int s\<rfloor> = (- n) div s"
    by (rule floor_divide_of_int_eq)
  then show ?thesis
    by (simp add: divRoundUp_def ceiling_def)
qed

lemma directBytes_pos: "cfg_ok cfg \<Longrightarrow> 0 < (NumDirect cfg - 1) * SectorSize cfg"
  by (simp add: cfg_ok_def)

lemma int_div_less_iff:
  fixes x :: int
  assumes "0 < s"
  shows "x div s < k \<longleftrightarrow> x < k * s"
proof -
  have "(x + (- k) * s) div s = - k + x div s"
    using assms by (simp only: div_mult_self1) 
  then have "x div s < k \<longleftrightarrow> (x + (- k) * s) div s < 0" by linarith
  also have "\<dots> \<longleftrightarrow> x + (- k) * s < 0"
    using assms by (rule pos_imp_zdiv_neg_iff)
  also have "\<dots> \<longleftrightarrow> x < k * s" by simp
  finally show ?thesis .
qed

lemma divRoundUp_diff:
  assumes "s \<noteq> 0"
  shows "divRoundUp (n - d * s) s = divRoundUp n s - d"
proof -
  have "(- n + d * s) div s = d + (- n) div s"
    using assms by (rule div_mult_self1)
  moreover have "- (n - d * s) = - n + d * s" by simp
  ultimately show ?thesis by (simp only: divRoundUp_def)
qed

lemma divRoundUp_mult:
  assumes "s \<noteq> 0"
  shows "divRoundUp (k * s) s = k"
proof -
  have "divRoundUp (k * s) s = divRoundUp (0 - (- k) * s) s" by simp
  also have "\<dots> = divRoundUp 0 s - (- k)" using assms by (rule divRoundUp_diff)
  also have "\<dots> = k" by (simp add: divRoundUp_def)
  finally show ?thesis .
qed

lemma divRoundUp_gt:
  assumes "0 < s"
  shows "d < divRoundUp n s \<longleftrightarrow> d * s < n"
proof -
  have "d < divRoundUp n s \<longleftrightarrow> (- n) div s < - d"
    unfolding divRoundUp_def by linarith
  also have "\<dots> \<longleftrightarrow> - n < (- d) * s"
    using assms by (rule int_div_less_iff)
  also have "\<dots> \<longleftrightarrow> d * s < n" by simp
  finally show ?thesis .
qed

lemma divRoundUp_le: "0 < s \<Longrightarrow> divRoundUp n s \<le> d \<longleftrightarrow> n \<le> d * s"
  using divRoundUp_gt [of s d n] by linarith

lemma divRoundUp_mono: "0 < s \<Longrightarrow> m \<le> n \<Longrightarrow> divRoundUp m s \<le> divRoundUp n s"
  by (simp add: divRoundUp_def zdiv_mono1)

lemma divRoundUp_nonneg: "0 < s \<Longrightarrow> 0 \<le> n \<Longrightarrow> 0 \<le> divRoundUp n s"
  using divRoundUp_gt [of s "-1" n] by simp

lemma divRoundUp_le_self: "0 < s \<Longrightarrow> 0 \<le> n \<Longrightarrow> divRoundUp n s \<le> n"
proof -
  assume s: "0 < s" and n: "0 \<le> n"
  have "n \<le> n * s" using s n by (simp add: mult_le_cancel_left1)
  then show ?thesis using divRoundUp_le [OF s, of n n] by simp
qed

lemma chainLen_direct:
  "cfg_ok cfg \<Longrightarrow> n \<le> (NumDirect cfg - 1) * SectorSize cfg \<Longrightarrow> chainLen cfg n = 0"
proof -
  assume ok: "cfg_ok cfg" and n: "n \<le> (NumDirect cfg - 1) * SectorSize cfg"
  let ?B = "(NumDirect cfg - 1) * SectorSize cfg"
  have B: "0 < ?B" using ok by (rule directBytes_pos)
  have "(n - 1) div ?B \<le> 0"
  proof -
    have "n - 1 < ?B" using n by simp
    then have "(n - 1) div ?B < 1" using B by (simp add: int_div_less_iff)
    then show ?thesis by simp
  qed
  then show ?thesis by (simp add: chainLen_def)
qed

lemma chainLen_indirect:
  "cfg_ok cfg \<Longrightarrow> (NumDirect cfg - 1) * SectorSize cfg < n \<Longrightarrow>
     chainLen cfg n = Suc (chainLen cfg (n - (NumDirect cfg - 1) * SectorSize cfg))"
proof -
  assume ok: "cfg_ok cfg" and n: "(NumDirect cfg - 1) * SectorSize cfg < n"
  let ?B = "(NumDirect cfg - 1) * SectorSize cfg"
  have B: "0 < ?B" using ok by (rule directBytes_pos)
  have "(n - 1) div ?B = ((n - ?B - 1) + ?B) div ?B" by simp
  also have "\<dots> = (n - ?B - 1) div ?B + 1"
  proof -
    have "?B \<noteq> 0" using B by linarith
    then show ?thesis by (rule div_add_self2)
  qed
  finally have e: "(n - 1) div ?B = (n - ?B - 1) div ?B + 1" .
  have "0 \<le> (n - ?B - 1) div ?B" using n B by (simp add: pos_imp_zdiv_nonneg_iff)
  with e show ?thesis by (simp add: chainLen_def nat_add_distrib)
qed

lemma consumed_direct:
  "cfg_ok cfg \<Longrightarrow> n \<le> (NumDirect cfg - 1) * SectorSize cfg \<Longrightarrow>
     consumed cfg n = divRoundUp n (SectorSize cfg)"
  by (simp add: consumed_def chainLen_direct)

lemma consumed_indirect:
  "cfg_ok cfg \<Longrightarrow> (NumDirect cfg - 1) * SectorSize cfg < n \<Longrightarrow>
     consumed cfg n =
       (NumDirect cfg - 1) + consumed cfg (n - (NumDirect cfg - 1) * SectorSize cfg) + 1"
  by (simp add: consumed_def chainLen_indirect divRoundUp_diff cfg_ok_def)

lemma consumed_nonneg: "cfg_ok cfg \<Longrightarrow> 0 \<le> n \<Longrightarrow> 0 \<le> consumed cfg n"
  using divRoundUp_nonneg [of "SectorSize cfg" n] by (simp add: consumed_def cfg_ok_def)

lemma divRoundUp_le_consumed: "divRoundUp n (SectorSize cfg) \<le> consumed cfg n"
  by (simp add: consumed_def)

subsection \<open>Chains of headers\<close>

lemma linked_agree:
  "\<forall>s \<in> set (inds cfg dk d h). dk2 s = dk s \<Longrightarrow>
     linked cfg dk2 d h = linked cfg dk d h \<and> inds cfg dk2 d h = inds cfg dk d h"
  by (induction d arbitrary: h) auto

lemma linked_depth:
  "cfg_ok cfg \<Longrightarrow> linked cfg dk d h \<Longrightarrow> d = chainLen cfg (numBytes h)"
proof (induction d arbitrary: h)
  case 0
  then show ?case by (simp add: chainLen_direct)
next
  case (Suc d)
  from Suc.prems have "d = chainLen cfg (numBytes (dk (dataSectors h ! nat (NumDirect cfg - 1))))"
    by (intro Suc.IH) simp_all
  with Suc.prems show ?case by (simp add: chainLen_indirect)
qed

lemma linked_numSectors:
  "linked cfg dk d h \<Longrightarrow> numSectors h = divRoundUp (numBytes h) (SectorSize cfg)"
  by (cases d) simp_all

lemma linked_lastSlot:
  assumes "cfg_ok cfg"
    and "linked cfg dk (chainLen cfg (numBytes h)) h"
    and "set (inds cfg dk (chainLen cfg (numBytes h)) h) \<subseteq> marked fm"
    and "NumDirect cfg - 1 < numSectors h"
  shows "lastSlotLinks cfg h dk fm"
proof -
  let ?S = "SectorSize cfg"
  let ?B = "(NumDirect cfg - 1) * ?S"
  have S: "0 < ?S" using assms(1) by (simp add: cfg_ok_def)
  have ns: "numSectors h = divRoundUp (numBytes h) ?S"
    using assms(2) by (rule linked_numSectors)
  with assms(4) have nB: "?B < numBytes h"
    using divRoundUp_gt [OF S, of "NumDirect cfg - 1" "numBytes h"] by simp
  define d where "d = chainLen cfg (numBytes h - ?B)"
  have cl: "chainLen cfg (numBytes h) = Suc d"
    unfolding d_def using assms(1) nB by (rule chainLen_indirect)
  define s where "s = dataSectors h ! nat (NumDirect cfg - 1)"
  from assms(2) have s0: "0 \<le> s" and cb: "numBytes (dk s) = numBytes h - ?B"
    and lc: "linked cfg dk d (dk s)"
    unfolding cl by (simp_all add: s_def)
  from assms(3) have sm: "s \<in> marked fm" unfolding cl by (simp add: s_def)
  have "numSectors (dk s) = divRoundUp (numBytes h - ?B) ?S"
    using linked_numSectors [OF lc] cb by simp
  also have "\<dots> = numSectors h - (NumDirect cfg - 1)"
    using S ns by (simp add: divRoundUp_diff)
  finally have cs: "numSectors (dk s) = numSectors h - (NumDirect cfg - 1)" .
  have "FetchFrom dk s = Inr (dk s)" using s0 by (simp add: FetchFrom_def ReadSector_def)
  with sm cb cs show ?thesis
    unfolding lastSlotLinks_def s_def [symmetric] by blast
qed

subsection \<open>The fields that a call sets\<close>

lemma Allocate_True_fields:
  assumes "Allocate cfg h fm dk n = Some (Inr (True, h', fm', dk'))"
  shows "numBytes h' = n \<and> numSectors h' = divRoundUp n (SectorSize cfg)"
  using assms
  apply (subst (asm) Allocate.simps)
  apply (auto simp: Let_def split: if_splits sum.splits prod.splits Option.bind_splits)
  done

lemma Extend_True_fields:
  assumes "Extend cfg h fm dk n = Some (Inr (True, h', fm', dk'))"
  shows "numBytes h' = n \<and> numSectors h' = divRoundUp n (SectorSize cfg)"
  using assms
  apply (subst (asm) Extend.simps)
  apply (auto simp: Let_def split: if_splits sum.splits prod.splits option.splits Option.bind_splits)
  done

lemma Extend_False_header:
  assumes "Extend cfg h fm dk n = Some (Inr (False, h', fm', dk'))"
  shows "h' = h"
  using assms
  apply (subst (asm) Extend.simps)
  apply (auto simp: Let_def split: if_splits sum.splits prod.splits option.splits Option.bind_splits)
  done

lemma WriteBack_then_FetchFrom:
  "WriteBack h dk s = Inr dk' \<Longrightarrow> FetchFrom dk' s = Inr h"
  by (auto simp: WriteBack_def FetchFrom_def WriteSector_def ReadSector_def split: if_splits)

subsection \<open>What Allocate returns\<close>

text \<open>
  One unfolding of \<open>Allocate\<close> for each of its two branches, and the outcome of a
  call that passes the two tests at its top: it stops at \<open>WriteBack\<close> when the free
  map runs out before the sectors of the further headers are claimed, and otherwise
  returns true, with a chain on the disk whose header sectors are new in the free map.
\<close>

lemma Allocate_direct_step:
  assumes "n \<le> MaxFileSize cfg"
    and "divRoundUp n (SectorSize cfg) \<le> NumClear fm"
    and "n \<le> (NumDirect cfg - 1) * SectorSize cfg"
    and "FindLoop 0 (divRoundUp n (SectorSize cfg)) (dataSectors h) fm = Inr (ds, fm1)"
  shows "Allocate cfg h fm dk n =
    Some (Inr (True,
      h\<lparr>numBytes := n, numSectors := divRoundUp n (SectorSize cfg), dataSectors := ds\<rparr>,
      fm1, dk))"
  using assms by (subst Allocate.simps) (simp add: Let_def)

lemma Allocate_indirect_step:
  assumes "n \<le> MaxFileSize cfg"
    and "divRoundUp n (SectorSize cfg) \<le> NumClear fm"
    and "(NumDirect cfg - 1) * SectorSize cfg < n"
    and "FindLoop 0 (NumDirect cfg - 1) (dataSectors h) fm = Inr (ds, fm1)"
  shows "Allocate cfg h fm dk n =
    (case Allocate cfg (newFileHeader cfg) fm1 dk (n - (NumDirect cfg - 1) * SectorSize cfg) of
       None \<Rightarrow> None
     | Some (Inl e) \<Rightarrow> Some (Inl e)
     | Some (Inr (ok, child, fm2, dk2)) \<Rightarrow>
         if \<not> ok then
           Some (Inr (False,
             h\<lparr>numBytes := n, numSectors := divRoundUp n (SectorSize cfg), dataSectors := ds\<rparr>,
             fm2, dk2))
         else if 0 \<le> fst (Find fm2) then
           Some (Inr (True,
             h\<lparr>numBytes := n, numSectors := divRoundUp n (SectorSize cfg),
               dataSectors := ds[nat (NumDirect cfg - 1) := fst (Find fm2)]\<rparr>,
             snd (Find fm2), dk2(fst (Find fm2) := child)))
         else Some (Inl BadSector))"
  using assms
  by (subst Allocate.simps)
    (simp add: Let_def WriteBack_def WriteSector_def split: option.splits sum.splits prod.splits)

lemma Allocate_char:
  assumes "cfg_ok cfg"
    and "int (length (dataSectors h)) = NumDirect cfg"
    and "0 \<le> n" and "n \<le> MaxFileSize cfg"
    and "divRoundUp n (SectorSize cfg) \<le> NumClear fm"
  shows "(NumClear fm < consumed cfg n \<and> Allocate cfg h fm dk n = Some (Inl BadSector)) \<or>
    (consumed cfg n \<le> NumClear fm \<and>
     (\<exists>h' dk'. Allocate cfg h fm dk n =
          Some (Inr (True, h', claimN (nat (consumed cfg n)) fm, dk')) \<and>
        numBytes h' = n \<and>
        linked cfg dk' (chainLen cfg n) h' \<and>
        distinct (inds cfg dk' (chainLen cfg n) h') \<and>
        set (inds cfg dk' (chainLen cfg n) h') \<subseteq>
          marked (claimN (nat (consumed cfg n)) fm) - marked fm \<and>
        (\<forall>t. t \<notin> marked (claimN (nat (consumed cfg n)) fm) - marked fm \<longrightarrow> dk' t = dk t) \<and>
        (n \<le> (NumDirect cfg - 1) * SectorSize cfg \<longrightarrow>
           dataSectors h' ! nat (NumDirect cfg - 1) = dataSectors h ! nat (NumDirect cfg - 1))))"
  using assms
proof (induction "nat n" arbitrary: n h fm dk rule: less_induct)
  case less
  let ?S = "SectorSize cfg"
  let ?D = "NumDirect cfg - 1"
  let ?B = "?D * ?S"
  let ?ns = "divRoundUp n ?S"
  have S: "0 < ?S" and D: "1 \<le> ?D" using less.prems(1) by (simp_all add: cfg_ok_def)
  have B: "0 < ?B" using less.prems(1) by (rule directBytes_pos)
  have ns0: "0 \<le> ?ns" using S less.prems(3) by (rule divRoundUp_nonneg)
  show ?case
  proof (cases "n \<le> ?B")
    case True
    have nsD: "?ns \<le> ?D" using S True by (rule divRoundUp_le [THEN iffD2])
    then have "?ns \<le> int (length (dataSectors h))" using less.prems(2) by simp
    from FindLoop_char [OF order_refl this, of fm]
    obtain ds1 where
      fl: "FindLoop 0 ?ns (dataSectors h) fm = Inr (ds1, claimN (nat ?ns) fm)"
      and len1: "length ds1 = length (dataSectors h)"
      and same: "\<forall>j. j < nat 0 \<or> nat ?ns \<le> j \<longrightarrow> ds1 ! j = dataSectors h ! j"
      by auto
    have c: "consumed cfg n = ?ns" using less.prems(1) True by (rule consumed_direct)
    have cl: "chainLen cfg n = 0" using less.prems(1) True by (rule chainLen_direct)
    let ?h' = "h\<lparr>numBytes := n, numSectors := ?ns, dataSectors := ds1\<rparr>"
    have a: "Allocate cfg h fm dk n = Some (Inr (True, ?h', claimN (nat ?ns) fm, dk))"
      using less.prems(4,5) True fl by (rule Allocate_direct_step)
    have "nat ?ns \<le> nat ?D" using nsD by simp
    with same have slot: "ds1 ! nat ?D = dataSectors h ! nat ?D" by simp
    have "linked cfg dk 0 ?h'"
      using less.prems(2,3) True len1 by simp
    with a c cl slot less.prems(5) show ?thesis
      by (intro disjI2) auto
  next
    case False
    then have nB: "?B < n" by simp
    have nsD: "?D < ?ns" using S nB by (rule divRoundUp_gt [THEN iffD2])
    have DK: "?D \<le> int (length (dataSectors h))" using less.prems(2) by simp
    from FindLoop_char [OF order_refl DK, of fm]
    obtain ds1 where
      fl: "FindLoop 0 ?D (dataSectors h) fm = Inr (ds1, claimN (nat ?D) fm)"
      and len1: "length ds1 = length (dataSectors h)"
      by auto
    let ?fm1 = "claimN (nat ?D) fm"
    let ?n' = "n - ?B"
    have DN: "int (nat ?D) \<le> NumClear fm" using nsD less.prems(5) D by simp
    have nc1: "NumClear ?fm1 = NumClear fm - ?D"
      using NumClear_claimN [OF DN] D by simp
    have ns': "divRoundUp ?n' ?S = ?ns - ?D" using S by (simp add: divRoundUp_diff)
    have c: "consumed cfg n = ?D + consumed cfg ?n' + 1"
      using less.prems(1) nB by (rule consumed_indirect)
    have cl: "chainLen cfg n = Suc (chainLen cfg ?n')"
      using less.prems(1) nB by (rule chainLen_indirect)
    have c'0: "0 \<le> consumed cfg ?n'"
      using ns' nsD by (simp add: consumed_def)
    have step: "Allocate cfg h fm dk n =
      (case Allocate cfg (newFileHeader cfg) ?fm1 dk ?n' of
         None \<Rightarrow> None
       | Some (Inl e) \<Rightarrow> Some (Inl e)
       | Some (Inr (ok, child, fm2, dk2)) \<Rightarrow>
           if \<not> ok then
             Some (Inr (False,
               h\<lparr>numBytes := n, numSectors := ?ns, dataSectors := ds1\<rparr>, fm2, dk2))
           else if 0 \<le> fst (Find fm2) then
             Some (Inr (True,
               h\<lparr>numBytes := n, numSectors := ?ns,
                 dataSectors := ds1[nat ?D := fst (Find fm2)]\<rparr>,
               snd (Find fm2), dk2(fst (Find fm2) := child)))
           else Some (Inl BadSector))"
      using less.prems(4,5) nB fl by (rule Allocate_indirect_step)
    have lt: "nat ?n' < nat n" using B nB by simp
    have p2: "int (length (dataSectors (newFileHeader cfg))) = NumDirect cfg"
      using D by (simp add: newFileHeader_def)
    have p3: "0 \<le> ?n'" using nB by simp
    have p4: "?n' \<le> MaxFileSize cfg" using less.prems(4) B by simp
    have p5: "divRoundUp ?n' ?S \<le> NumClear ?fm1" using ns' nc1 less.prems(5) by simp
    from less.hyps [OF lt less.prems(1) p2 p3 p4 p5, of dk]
    show ?thesis
    proof (elim disjE conjE exE)
      assume "NumClear ?fm1 < consumed cfg ?n'"
        and "Allocate cfg (newFileHeader cfg) ?fm1 dk ?n' = Some (Inl BadSector)"
      then show ?thesis using step nc1 c by simp
    next
      fix c' dk2
      let ?fm2 = "claimN (nat (consumed cfg ?n')) ?fm1"
      let ?d' = "chainLen cfg ?n'"
      assume en: "consumed cfg ?n' \<le> NumClear ?fm1"
        and al: "Allocate cfg (newFileHeader cfg) ?fm1 dk ?n' = Some (Inr (True, c', ?fm2, dk2))"
        and nb: "numBytes c' = ?n'"
        and lk: "linked cfg dk2 ?d' c'"
        and di: "distinct (inds cfg dk2 ?d' c')"
        and su: "set (inds cfg dk2 ?d' c') \<subseteq> marked ?fm2 - marked ?fm1"
        and fr: "\<forall>t. t \<notin> marked ?fm2 - marked ?fm1 \<longrightarrow> dk2 t = dk t"
      have nc2: "NumClear ?fm2 = NumClear ?fm1 - consumed cfg ?n'"
        using NumClear_claimN [of "nat (consumed cfg ?n')" ?fm1] en c'0 by simp
      show ?thesis
      proof (cases "0 < NumClear ?fm2")
        case False
        then have z: "NumClear ?fm2 = 0" using NumClear_nonneg [of ?fm2] by linarith
        then have "Find ?fm2 = (- 1, ?fm2)" by (rule Find_none)
        then have "Allocate cfg h fm dk n = Some (Inl BadSector)"
          using step al by simp
        moreover have "NumClear fm < consumed cfg n" using z nc2 nc1 c by simp
        ultimately show ?thesis by simp
      next
        case True
        define s where "s = fst (Find ?fm2)"
        define fm3 where "fm3 = snd (Find ?fm2)"
        define h' where
          "h' = h\<lparr>numBytes := n, numSectors := ?ns, dataSectors := ds1[nat ?D := s]\<rparr>"
        define dk' where "dk' = dk2(s := c')"
        from marked_Find [OF True] have
          s1: "s \<notin> marked ?fm2" and s0: "0 \<le> s" and
          m3: "marked fm3 = insert s (marked ?fm2)"
          by (simp_all add: s_def fm3_def)
        have a: "Allocate cfg h fm dk n = Some (Inr (True, h', fm3, dk'))"
          using step al s0 by (simp add: s_def fm3_def h'_def dk'_def)
        have en3: "consumed cfg n \<le> NumClear fm" using True nc2 nc1 c by simp
        have "nat (consumed cfg n) = nat ?D + (nat (consumed cfg ?n') + 1)"
          using c c'0 D by simp
        then have fm3: "claimN (nat (consumed cfg n)) fm = fm3"
          by (simp only: claimN_add) (simp add: fm3_def)
        have m01: "marked fm \<subseteq> marked ?fm1" by (rule marked_claimN_mono)
        have m12: "marked ?fm1 \<subseteq> marked ?fm2" by (rule marked_claimN_mono)
        have sn: "s \<notin> set (inds cfg dk2 ?d' c')" using su s1 by blast
        then have "\<forall>t \<in> set (inds cfg dk2 ?d' c'). dk' t = dk2 t"
          by (auto simp: dk'_def)
        note ag = linked_agree [OF this]
        have lk': "linked cfg dk' ?d' c'"
          using ag lk by simp
        have in': "inds cfg dk' ?d' c' = inds cfg dk2 ?d' c'"
          using ag by (rule conjunct2)
        have dks: "dk' s = c'" by (simp add: dk'_def)
        have hf: "numBytes h' = n" "numSectors h' = ?ns"
          "int (length (dataSectors h')) = NumDirect cfg"
          using len1 less.prems(2) by (simp_all add: h'_def)
        have slot: "dataSectors h' ! nat ?D = s"
          using len1 less.prems(2) D by (simp add: h'_def)
        have L: "linked cfg dk' (Suc ?d') h'"
          using nB hf slot s0 dks nb lk' by simp
        have I: "inds cfg dk' (Suc ?d') h' = s # inds cfg dk2 ?d' c'"
          using slot in' dks by simp
        have Dn: "distinct (inds cfg dk' (Suc ?d') h')"
          unfolding I using di sn by simp
        have Su: "set (inds cfg dk' (Suc ?d') h') \<subseteq> marked fm3 - marked fm"
          unfolding I using su s1 m3 m01 m12 by auto
        have Fr: "\<forall>t. t \<notin> marked fm3 - marked fm \<longrightarrow> dk' t = dk t"
          using fr s1 m3 m01 m12 by (auto simp: dk'_def)
        have "\<not> n \<le> ?B" using nB by simp
        with a en3 fm3 cl L Dn Su Fr hf show ?thesis
          by (intro disjI2 conjI exI [of _ h'] exI [of _ dk']) simp_all
      qed
    qed
  qed
qed

lemma Allocate_True_char:
  assumes "cfg_ok cfg"
    and "int (length (dataSectors h)) = NumDirect cfg"
    and "0 \<le> n"
    and "Allocate cfg h fm dk n = Some (Inr (True, h', fm', dk'))"
  shows "n \<le> MaxFileSize cfg \<and> consumed cfg n \<le> NumClear fm \<and>
     fm' = claimN (nat (consumed cfg n)) fm \<and> numBytes h' = n \<and>
     linked cfg dk' (chainLen cfg n) h' \<and>
     distinct (inds cfg dk' (chainLen cfg n) h') \<and>
     set (inds cfg dk' (chainLen cfg n) h') \<subseteq> marked fm' \<and>
     (n \<le> (NumDirect cfg - 1) * SectorSize cfg \<longrightarrow>
        dataSectors h' ! nat (NumDirect cfg - 1) = dataSectors h ! nat (NumDirect cfg - 1))"
proof -
  have nM: "n \<le> MaxFileSize cfg"
  proof (rule ccontr)
    assume "\<not> n \<le> MaxFileSize cfg"
    then have "Allocate cfg h fm dk n = Some (Inr (False, h, fm, dk))"
      by (subst Allocate.simps) simp
    with assms(4) show False by simp
  qed
  have sp: "divRoundUp n (SectorSize cfg) \<le> NumClear fm"
  proof (rule ccontr)
    assume "\<not> divRoundUp n (SectorSize cfg) \<le> NumClear fm"
    with nM have "Allocate cfg h fm dk n =
      Some (Inr (False, h\<lparr>numBytes := n, numSectors := divRoundUp n (SectorSize cfg)\<rparr>, fm, dk))"
      by (subst Allocate.simps) (simp add: Let_def)
    with assms(4) show False by simp
  qed
  from Allocate_char [OF assms(1,2,3) nM sp, of dk] assms(4) nM show ?thesis
    by auto
qed

lemma Allocate_returns_not_False:
  assumes "cfg_ok cfg"
    and "int (length (dataSectors h)) = NumDirect cfg"
    and "n \<le> MaxFileSize cfg"
    and "divRoundUp n (SectorSize cfg) \<le> NumClear fm"
  shows "Allocate cfg h fm dk n = Some (Inl BadSector) \<or>
    (\<exists>h' fm' dk'. Allocate cfg h fm dk n = Some (Inr (True, h', fm', dk')))"
proof (cases "0 \<le> n")
  case True
  from Allocate_char [OF assms(1,2) True assms(3,4), of dk] show ?thesis by blast
next
  case False
  let ?S = "SectorSize cfg"
  have S: "0 < ?S" and D: "1 \<le> NumDirect cfg - 1" using assms(1) by (simp_all add: cfg_ok_def)
  have B: "0 < (NumDirect cfg - 1) * ?S" using assms(1) by (rule directBytes_pos)
  have "divRoundUp n ?S \<le> divRoundUp 0 ?S" using S False by (intro divRoundUp_mono) simp_all
  then have "\<not> 0 < divRoundUp n ?S" by (simp add: divRoundUp_def)
  then have "FindLoop 0 (divRoundUp n ?S) (dataSectors h) fm = Inr (dataSectors h, fm)"
    by (rule FindLoop_none)
  moreover have "n \<le> (NumDirect cfg - 1) * ?S" using False B by simp
  ultimately show ?thesis
    using Allocate_direct_step [OF assms(3,4), of h "dataSectors h" fm dk] by blast
qed

lemma Allocate_negative_size:
  assumes "cfg_ok cfg" and "n < 0"
    and "Allocate cfg h fm dk n = Some (Inr (True, h', fm', dk'))"
  shows "h' = h\<lparr>numBytes := n, numSectors := divRoundUp n (SectorSize cfg)\<rparr> \<and>
         numSectors h' \<le> 0"
proof -
  let ?S = "SectorSize cfg"
  have S: "0 < ?S" using assms(1) by (simp add: cfg_ok_def)
  have B: "0 < (NumDirect cfg - 1) * ?S" using assms(1) by (rule directBytes_pos)
  have "divRoundUp n ?S \<le> divRoundUp 0 ?S" using S assms(2) by (intro divRoundUp_mono) simp_all
  then have ns: "divRoundUp n ?S \<le> 0" by (simp add: divRoundUp_def)
  then have fl: "FindLoop 0 (divRoundUp n ?S) (dataSectors h) fm = Inr (dataSectors h, fm)"
    by (intro FindLoop_none) simp
  have nM: "n \<le> MaxFileSize cfg"
  proof (rule ccontr)
    assume "\<not> n \<le> MaxFileSize cfg"
    then have "Allocate cfg h fm dk n = Some (Inr (False, h, fm, dk))"
      by (subst Allocate.simps) simp
    with assms(3) show False by simp
  qed
  have sp: "divRoundUp n ?S \<le> NumClear fm"
    using ns NumClear_nonneg [of fm] by linarith
  have "n \<le> (NumDirect cfg - 1) * ?S" using assms(2) B by simp
  from Allocate_direct_step [OF nM sp this fl, of dk] assms(3) ns
  show ?thesis by auto
qed

subsection \<open>What Extend returns\<close>

lemma Extend_gate_fails:
  assumes "MaxFileSize cfg < divRoundUp n (SectorSize cfg) \<or>
           NumClear fm < divRoundUp n (SectorSize cfg)"
  shows "Extend cfg h fm dk n = Some (Inr (False, h, fm, dk))"
  using assms by (subst Extend.simps) (auto simp: Let_def)

lemma Extend_direct_step:
  assumes "divRoundUp n (SectorSize cfg) \<le> MaxFileSize cfg"
    and "divRoundUp n (SectorSize cfg) \<le> NumClear fm"
    and "n \<le> (NumDirect cfg - 1) * SectorSize cfg"
    and "FindLoop (numSectors h) (divRoundUp n (SectorSize cfg)) (dataSectors h) fm = Inr (ds, fm1)"
  shows "Extend cfg h fm dk n =
    Some (Inr (True,
      h\<lparr>numBytes := n, numSectors := divRoundUp n (SectorSize cfg), dataSectors := ds\<rparr>,
      fm1, dk))"
  using assms by (subst Extend.simps) (simp add: Let_def)

lemma Extend_cross_step:
  assumes "divRoundUp n (SectorSize cfg) \<le> MaxFileSize cfg"
    and "divRoundUp n (SectorSize cfg) \<le> NumClear fm"
    and "(NumDirect cfg - 1) * SectorSize cfg < n"
    and "numBytes h \<le> (NumDirect cfg - 1) * SectorSize cfg"
    and "FindLoop (numSectors h) (NumDirect cfg - 1) (dataSectors h) fm = Inr (ds, fm1)"
  shows "Extend cfg h fm dk n =
    (case Allocate cfg (newFileHeader cfg) fm1 dk (n - (NumDirect cfg - 1) * SectorSize cfg) of
       None \<Rightarrow> None
     | Some (Inl e) \<Rightarrow> Some (Inl e)
     | Some (Inr (ok, child, fm2, dk2)) \<Rightarrow>
         if 0 \<le> fst (Find fm2) then
           Some (Inr (True,
             h\<lparr>numBytes := n, numSectors := divRoundUp n (SectorSize cfg),
               dataSectors := ds[nat (NumDirect cfg - 1) := fst (Find fm2)]\<rparr>,
             snd (Find fm2), dk2(fst (Find fm2) := child)))
         else Some (Inl BadSector))"
  using assms
  by (subst Extend.simps)
    (simp add: Let_def WriteBack_def WriteSector_def split: option.splits sum.splits prod.splits)

lemma Extend_indirect_step:
  assumes "divRoundUp n (SectorSize cfg) \<le> MaxFileSize cfg"
    and "divRoundUp n (SectorSize cfg) \<le> NumClear fm"
    and "(NumDirect cfg - 1) * SectorSize cfg < n"
    and "(NumDirect cfg - 1) * SectorSize cfg < numBytes h"
    and "0 \<le> dataSectors h ! nat (NumDirect cfg - 1)"
  shows "Extend cfg h fm dk n =
    (case Extend cfg (dk (dataSectors h ! nat (NumDirect cfg - 1))) fm dk
            (n - (NumDirect cfg - 1) * SectorSize cfg) of
       None \<Rightarrow> None
     | Some (Inl e) \<Rightarrow> Some (Inl e)
     | Some (Inr (ok, child, fm1, dk1)) \<Rightarrow>
         if \<not> ok then Some (Inr (False, h, fm1, dk1))
         else
           Some (Inr (True,
             h\<lparr>numBytes := n, numSectors := divRoundUp n (SectorSize cfg)\<rparr>,
             fm1, dk1(dataSectors h ! nat (NumDirect cfg - 1) := child))))"
  using assms
  by (subst Extend.simps)
    (simp add: Let_def WriteBack_def WriteSector_def FetchFrom_def ReadSector_def
       split: option.splits sum.splits prod.splits)

lemma Extend_shrink:
  assumes "cfg_ok cfg"
    and "linked cfg dk d h"
    and "n < numBytes h"
    and "divRoundUp n (SectorSize cfg) \<le> MaxFileSize cfg"
    and "divRoundUp n (SectorSize cfg) \<le> NumClear fm"
  shows "\<exists>dk'. Extend cfg h fm dk n =
      Some (Inr (True, h\<lparr>numBytes := n, numSectors := divRoundUp n (SectorSize cfg)\<rparr>,
        fm, dk')) \<and>
    ((NumDirect cfg - 1) * SectorSize cfg < n \<longrightarrow>
       dk' (dataSectors h ! nat (NumDirect cfg - 1)) =
         (dk (dataSectors h ! nat (NumDirect cfg - 1)))
           \<lparr>numBytes := n - (NumDirect cfg - 1) * SectorSize cfg,
            numSectors := divRoundUp (n - (NumDirect cfg - 1) * SectorSize cfg) (SectorSize cfg)\<rparr>)"
  using assms
proof (induction d arbitrary: h n)
  case 0
  let ?S = "SectorSize cfg"
  have S: "0 < ?S" using "0.prems"(1) by (simp add: cfg_ok_def)
  from "0.prems"(2) have nb: "numBytes h \<le> (NumDirect cfg - 1) * ?S"
    and ns: "numSectors h = divRoundUp (numBytes h) ?S" by simp_all
  have "divRoundUp n ?S \<le> divRoundUp (numBytes h) ?S"
    using S "0.prems"(3) by (intro divRoundUp_mono) simp_all
  then have "\<not> numSectors h < divRoundUp n ?S" using ns by simp
  then have "FindLoop (numSectors h) (divRoundUp n ?S) (dataSectors h) fm = Inr (dataSectors h, fm)"
    by (rule FindLoop_none)
  moreover have nB: "n \<le> (NumDirect cfg - 1) * ?S" using nb "0.prems"(3) by simp
  ultimately have "Extend cfg h fm dk n =
    Some (Inr (True, h\<lparr>numBytes := n, numSectors := divRoundUp n ?S,
       dataSectors := dataSectors h\<rparr>, fm, dk))"
    using "0.prems"(4,5) by (intro Extend_direct_step)
  with nB show ?case by simp
next
  case (Suc d)
  let ?S = "SectorSize cfg"
  let ?D = "NumDirect cfg - 1"
  let ?B = "?D * ?S"
  let ?s = "dataSectors h ! nat ?D"
  have S: "0 < ?S" and D: "1 \<le> ?D" using Suc.prems(1) by (simp_all add: cfg_ok_def)
  from Suc.prems(2) have nb: "?B < numBytes h"
    and ns: "numSectors h = divRoundUp (numBytes h) ?S"
    and s0: "0 \<le> ?s"
    and cb: "numBytes (dk ?s) = numBytes h - ?B"
    and cl: "linked cfg dk d (dk ?s)"
    by simp_all
  show ?case
  proof (cases "n \<le> ?B")
    case True
    have "divRoundUp n ?S \<le> divRoundUp (numBytes h) ?S"
      using S Suc.prems(3) by (intro divRoundUp_mono) simp_all
    then have "\<not> numSectors h < divRoundUp n ?S" using ns by simp
    then have "FindLoop (numSectors h) (divRoundUp n ?S) (dataSectors h) fm = Inr (dataSectors h, fm)"
      by (rule FindLoop_none)
    with True have "Extend cfg h fm dk n =
      Some (Inr (True, h\<lparr>numBytes := n, numSectors := divRoundUp n ?S,
         dataSectors := dataSectors h\<rparr>, fm, dk))"
      using Suc.prems(4,5) by (intro Extend_direct_step)
    with True show ?thesis by simp
  next
    case False
    then have nB: "?B < n" by simp
    have ns': "divRoundUp (n - ?B) ?S = divRoundUp n ?S - ?D"
      using S by (simp add: divRoundUp_diff)
    have p3: "n - ?B < numBytes (dk ?s)" using cb Suc.prems(3) by simp
    have p4: "divRoundUp (n - ?B) ?S \<le> MaxFileSize cfg" using ns' D Suc.prems(4) by simp
    have p5: "divRoundUp (n - ?B) ?S \<le> NumClear fm" using ns' D Suc.prems(5) by simp
    from Suc.IH [OF Suc.prems(1) cl p3 p4 p5] obtain dk1 where
      "Extend cfg (dk ?s) fm dk (n - ?B) =
        Some (Inr (True, (dk ?s)\<lparr>numBytes := n - ?B,
          numSectors := divRoundUp (n - ?B) ?S\<rparr>, fm, dk1))"
      by blast
    then show ?thesis
      using Extend_indirect_step [OF Suc.prems(4,5) nB nb s0, of dk] by simp
  qed
qed

lemma Extend_char:
  assumes "cfg_ok cfg"
    and "linked cfg dk d h"
    and "distinct (inds cfg dk d h)"
    and "set (inds cfg dk d h) \<subseteq> marked fm"
    and "numBytes h \<le> n" and "n \<le> MaxFileSize cfg"
  shows
   "(NumClear fm < divRoundUp n (SectorSize cfg) \<and>
       Extend cfg h fm dk n = Some (Inr (False, h, fm, dk))) \<or>
    (divRoundUp n (SectorSize cfg) \<le> NumClear fm \<and>
       NumClear fm < consumed cfg n - consumed cfg (numBytes h) \<and>
       Extend cfg h fm dk n = Some (Inl BadSector)) \<or>
    (divRoundUp n (SectorSize cfg) \<le> NumClear fm \<and>
       0 \<le> consumed cfg n - consumed cfg (numBytes h) \<and>
       consumed cfg n - consumed cfg (numBytes h) \<le> NumClear fm \<and>
       (\<exists>h' dk'. Extend cfg h fm dk n =
            Some (Inr (True, h',
              claimN (nat (consumed cfg n - consumed cfg (numBytes h))) fm, dk')) \<and>
          numBytes h' = n \<and>
          linked cfg dk' (chainLen cfg n) h' \<and>
          distinct (inds cfg dk' (chainLen cfg n) h') \<and>
          set (inds cfg dk' (chainLen cfg n) h') \<subseteq>
            set (inds cfg dk d h) \<union>
            (marked (claimN (nat (consumed cfg n - consumed cfg (numBytes h))) fm) - marked fm) \<and>
          (\<forall>t. t \<notin> set (inds cfg dk d h) \<union>
                 (marked (claimN (nat (consumed cfg n - consumed cfg (numBytes h))) fm) -
                  marked fm) \<longrightarrow> dk' t = dk t) \<and>
          (n \<le> (NumDirect cfg - 1) * SectorSize cfg \<longrightarrow>
             dataSectors h' ! nat (NumDirect cfg - 1) = dataSectors h ! nat (NumDirect cfg - 1))))"
  using assms
proof (induction d arbitrary: h n)
  case 0
  let ?S = "SectorSize cfg"
  let ?D = "NumDirect cfg - 1"
  let ?B = "?D * ?S"
  let ?m = "numBytes h"
  let ?ns = "divRoundUp n ?S"
  have S: "0 < ?S" and D: "1 \<le> ?D" using "0.prems"(1) by (simp_all add: cfg_ok_def)
  have B: "0 < ?B" using "0.prems"(1) by (rule directBytes_pos)
  from "0.prems"(2) have m0: "0 \<le> ?m" and mB: "?m \<le> ?B"
    and nsh: "numSectors h = divRoundUp ?m ?S"
    and len: "int (length (dataSectors h)) = NumDirect cfg"
    by simp_all
  have n0: "0 \<le> n" using m0 "0.prems"(5) by simp
  have nsm0: "0 \<le> numSectors h" unfolding nsh using S m0 by (rule divRoundUp_nonneg)
  have nsmD: "numSectors h \<le> ?D" unfolding nsh using S mB by (rule divRoundUp_le [THEN iffD2])
  have nsmn: "numSectors h \<le> ?ns" unfolding nsh using S "0.prems"(5) by (rule divRoundUp_mono)
  have "?ns \<le> n" using S n0 by (rule divRoundUp_le_self)
  then have gM: "?ns \<le> MaxFileSize cfg" using "0.prems"(6) by simp
  have cm: "consumed cfg ?m = numSectors h"
    unfolding nsh using "0.prems"(1) mB by (rule consumed_direct)
  show ?case
  proof (cases "NumClear fm < ?ns")
    case True
    then have "Extend cfg h fm dk n = Some (Inr (False, h, fm, dk))"
      by (intro Extend_gate_fails) simp
    with True show ?thesis by simp
  next
    case False
    then have gN: "?ns \<le> NumClear fm" by simp
    show ?thesis
    proof (cases "n \<le> ?B")
      case True
      have nsD: "?ns \<le> ?D" using S True by (rule divRoundUp_le [THEN iffD2])
      then have "?ns \<le> int (length (dataSectors h))" using len by simp
      from FindLoop_char [OF nsm0 this, of fm]
      obtain ds1 where
        fl: "FindLoop (numSectors h) ?ns (dataSectors h) fm =
               Inr (ds1, claimN (nat (?ns - numSectors h)) fm)"
        and len1: "length ds1 = length (dataSectors h)"
        and same: "\<forall>j. j < nat (numSectors h) \<or> nat ?ns \<le> j \<longrightarrow> ds1 ! j = dataSectors h ! j"
        by auto
      have c: "consumed cfg n = ?ns" using "0.prems"(1) True by (rule consumed_direct)
      have cl: "chainLen cfg n = 0" using "0.prems"(1) True by (rule chainLen_direct)
      define h' where "h' = h\<lparr>numBytes := n, numSectors := ?ns, dataSectors := ds1\<rparr>"
      have a: "Extend cfg h fm dk n =
          Some (Inr (True, h', claimN (nat (?ns - numSectors h)) fm, dk))"
        unfolding h'_def using gM gN True fl by (rule Extend_direct_step)
      have "nat ?ns \<le> nat ?D" using nsD by simp
      with same have slot: "dataSectors h' ! nat ?D = dataSectors h ! nat ?D"
        by (simp add: h'_def)
      have L: "linked cfg dk 0 h'"
        using len n0 True len1 by (simp add: h'_def)
      have nb: "numBytes h' = n" by (simp add: h'_def)
      from a c cm cl slot L nb gN nsmn nsm0 show ?thesis
        by (intro disjI2 conjI exI [of _ h'] exI [of _ dk]) simp_all
    next
      case False
      then have nB: "?B < n" by simp
      have nsD: "?D < ?ns" using S nB by (rule divRoundUp_gt [THEN iffD2])
      have DK: "?D \<le> int (length (dataSectors h))" using len by simp
      define k1 where "k1 = ?D - numSectors h"
      have k10: "0 \<le> k1" using nsmD by (simp add: k1_def)
      from FindLoop_char [OF nsm0 DK, of fm]
      obtain ds1 where
        fl: "FindLoop (numSectors h) ?D (dataSectors h) fm = Inr (ds1, claimN (nat k1) fm)"
        and len1: "length ds1 = length (dataSectors h)"
        unfolding k1_def by auto
      define fm1 where "fm1 = claimN (nat k1) fm"
      define n' where "n' = n - ?B"
      have "int (nat k1) \<le> NumClear fm" using k10 nsD gN nsm0 by (simp add: k1_def)
      from NumClear_claimN [OF this]
      have nc1: "NumClear fm1 = NumClear fm - k1" using k10 by (simp add: fm1_def)
      have ns': "divRoundUp n' ?S = ?ns - ?D" unfolding n'_def using S by (simp add: divRoundUp_diff)
      have c: "consumed cfg n = ?D + consumed cfg n' + 1"
        unfolding n'_def using "0.prems"(1) nB by (rule consumed_indirect)
      have cl: "chainLen cfg n = Suc (chainLen cfg n')"
        unfolding n'_def using "0.prems"(1) nB by (rule chainLen_indirect)
      have c'0: "0 \<le> consumed cfg n'" using ns' nsD by (simp add: consumed_def)
      define need where "need = consumed cfg n - consumed cfg ?m"
      have need: "need = k1 + consumed cfg n' + 1" by (simp add: need_def c cm k1_def)
      have step: "Extend cfg h fm dk n =
        (case Allocate cfg (newFileHeader cfg) fm1 dk n' of
           None \<Rightarrow> None
         | Some (Inl e) \<Rightarrow> Some (Inl e)
         | Some (Inr (ok, child, fm2, dk2)) \<Rightarrow>
             if 0 \<le> fst (Find fm2) then
               Some (Inr (True,
                 h\<lparr>numBytes := n, numSectors := ?ns,
                   dataSectors := ds1[nat ?D := fst (Find fm2)]\<rparr>,
                 snd (Find fm2), dk2(fst (Find fm2) := child)))
             else Some (Inl BadSector))"
        unfolding fm1_def n'_def using gM gN nB mB fl by (rule Extend_cross_step)
      have p2: "int (length (dataSectors (newFileHeader cfg))) = NumDirect cfg"
        using D by (simp add: newFileHeader_def)
      have p3: "0 \<le> n'" using nB by (simp add: n'_def)
      have p4: "n' \<le> MaxFileSize cfg" using "0.prems"(6) B by (simp add: n'_def)
      have p5: "divRoundUp n' ?S \<le> NumClear fm1" using ns' nc1 gN nsm0 by (simp add: k1_def)
      from Allocate_char [OF "0.prems"(1) p2 p3 p4 p5, of dk]
      show ?thesis
      proof (elim disjE conjE exE)
        assume "NumClear fm1 < consumed cfg n'"
          and "Allocate cfg (newFileHeader cfg) fm1 dk n' = Some (Inl BadSector)"
        then have "Extend cfg h fm dk n = Some (Inl BadSector)"
          and "NumClear fm < need"
          using step nc1 need by simp_all
        with gN show ?thesis unfolding need_def by blast
      next
        fix c' dk2
        define fm2 where "fm2 = claimN (nat (consumed cfg n')) fm1"
        define d' where "d' = chainLen cfg n'"
        assume en: "consumed cfg n' \<le> NumClear fm1"
          and al: "Allocate cfg (newFileHeader cfg) fm1 dk n' =
             Some (Inr (True, c', claimN (nat (consumed cfg n')) fm1, dk2))"
          and nb: "numBytes c' = n'"
          and lk: "linked cfg dk2 (chainLen cfg n') c'"
          and di: "distinct (inds cfg dk2 (chainLen cfg n') c')"
          and su: "set (inds cfg dk2 (chainLen cfg n') c') \<subseteq>
                    marked (claimN (nat (consumed cfg n')) fm1) - marked fm1"
          and fr: "\<forall>t. t \<notin> marked (claimN (nat (consumed cfg n')) fm1) - marked fm1 \<longrightarrow>
                    dk2 t = dk t"
        have nc2: "NumClear fm2 = NumClear fm1 - consumed cfg n'"
          using NumClear_claimN [of "nat (consumed cfg n')" fm1] en c'0 by (simp add: fm2_def)
        show ?thesis
        proof (cases "0 < NumClear fm2")
          case False
          then have z: "NumClear fm2 = 0" using NumClear_nonneg [of fm2] by linarith
          then have "Find fm2 = (- 1, fm2)" by (rule Find_none)
          then have "Extend cfg h fm dk n = Some (Inl BadSector)"
            using step al by (simp add: fm2_def)
          moreover have "NumClear fm < need" using z nc2 nc1 need by simp
          ultimately show ?thesis using gN unfolding need_def by blast
        next
          case True
          define s where "s = fst (Find fm2)"
          define fm3 where "fm3 = snd (Find fm2)"
          define h' where
            "h' = h\<lparr>numBytes := n, numSectors := ?ns, dataSectors := ds1[nat ?D := s]\<rparr>"
          define dk' where "dk' = dk2(s := c')"
          from marked_Find [OF True] have
            s1: "s \<notin> marked fm2" and s0: "0 \<le> s" and
            m3: "marked fm3 = insert s (marked fm2)"
            by (simp_all add: s_def fm3_def)
          have a: "Extend cfg h fm dk n = Some (Inr (True, h', fm3, dk'))"
            using step al s0 by (simp add: s_def fm3_def h'_def dk'_def fm2_def)
          have en3: "need \<le> NumClear fm" using True nc2 nc1 need by simp
          have "nat need = nat k1 + (nat (consumed cfg n') + 1)"
            using need c'0 k10 by simp
          then have fm3: "claimN (nat need) fm = fm3"
            by (simp only: claimN_add) (simp add: fm3_def fm2_def fm1_def)
          have m01: "marked fm \<subseteq> marked fm1" unfolding fm1_def by (rule marked_claimN_mono)
          have m12: "marked fm1 \<subseteq> marked fm2" unfolding fm2_def by (rule marked_claimN_mono)
          have su': "set (inds cfg dk2 d' c') \<subseteq> marked fm2 - marked fm1"
            using su by (simp add: fm2_def d'_def)
          have fr': "\<forall>t. t \<notin> marked fm2 - marked fm1 \<longrightarrow> dk2 t = dk t"
            using fr by (simp add: fm2_def)
          have sn: "s \<notin> set (inds cfg dk2 d' c')" using su' s1 by blast
          then have "\<forall>t \<in> set (inds cfg dk2 d' c'). dk' t = dk2 t"
            by (auto simp: dk'_def)
          note ag = linked_agree [OF this]
          have lk': "linked cfg dk' d' c'"
            using ag lk by (simp add: d'_def)
          have in': "inds cfg dk' d' c' = inds cfg dk2 d' c'"
            using ag by (rule conjunct2)
          have dks: "dk' s = c'" by (simp add: dk'_def)
          have hf: "numBytes h' = n" "numSectors h' = ?ns"
            "int (length (dataSectors h')) = NumDirect cfg"
            using len1 len by (simp_all add: h'_def)
          have slot: "dataSectors h' ! nat ?D = s"
            using len1 len D by (simp add: h'_def)
          have L: "linked cfg dk' (Suc d') h'"
            using nB hf slot s0 dks nb lk' by (simp add: n'_def)
          have I: "inds cfg dk' (Suc d') h' = s # inds cfg dk2 d' c'"
            using slot in' dks by simp
          have Dn: "distinct (inds cfg dk' (Suc d') h')"
            unfolding I using di sn by (simp add: d'_def)
          have Su: "set (inds cfg dk' (Suc d') h') \<subseteq>
                      set (inds cfg dk 0 h) \<union> (marked fm3 - marked fm)"
            unfolding I using su' s1 m3 m01 m12 by auto
          have Fr: "\<forall>t. t \<notin> set (inds cfg dk 0 h) \<union> (marked fm3 - marked fm) \<longrightarrow> dk' t = dk t"
            using fr' s1 m3 m01 m12 by (auto simp: dk'_def)
          have nn: "\<not> n \<le> ?B" using nB by simp
          have need0: "0 \<le> need" using need k10 c'0 by simp
          from a en3 fm3 L Dn Su Fr hf(1) gN nn need0 show ?thesis
            unfolding need_def cl d'_def
            by (intro disjI2 conjI exI [of _ h'] exI [of _ dk']) simp_all
        qed
      qed
    qed
  qed
next
  case (Suc d)
  let ?S = "SectorSize cfg"
  let ?D = "NumDirect cfg - 1"
  let ?B = "?D * ?S"
  let ?m = "numBytes h"
  let ?ns = "divRoundUp n ?S"
  define s where "s = dataSectors h ! nat ?D"
  define c where "c = dk s"
  define n' where "n' = n - ?B"
  have S: "0 < ?S" and D: "1 \<le> ?D" using Suc.prems(1) by (simp_all add: cfg_ok_def)
  have B: "0 < ?B" using Suc.prems(1) by (rule directBytes_pos)
  from Suc.prems(2) have mB: "?B < ?m"
    and s0: "0 \<le> s"
    and cb: "numBytes c = ?m - ?B"
    and lc: "linked cfg dk d c"
    by (simp_all add: s_def c_def)
  have I0: "inds cfg dk (Suc d) h = s # inds cfg dk d c" by (simp add: s_def c_def)
  from Suc.prems(3) have dc: "distinct (inds cfg dk d c)" and sni: "s \<notin> set (inds cfg dk d c)"
    unfolding I0 by simp_all
  from Suc.prems(4) have sc: "set (inds cfg dk d c) \<subseteq> marked fm" and sm: "s \<in> marked fm"
    unfolding I0 by simp_all
  have nB: "?B < n" using mB Suc.prems(5) by simp
  have n0: "0 \<le> n" using nB B by simp
  have "?ns \<le> n" using S n0 by (rule divRoundUp_le_self)
  then have gM: "?ns \<le> MaxFileSize cfg" using Suc.prems(6) by simp
  have ns': "divRoundUp n' ?S = ?ns - ?D" unfolding n'_def using S by (simp add: divRoundUp_diff)
  have cn: "consumed cfg n = ?D + consumed cfg n' + 1"
    unfolding n'_def using Suc.prems(1) nB by (rule consumed_indirect)
  have cm: "consumed cfg ?m = ?D + consumed cfg (numBytes c) + 1"
    unfolding cb using Suc.prems(1) mB by (rule consumed_indirect)
  have cl: "chainLen cfg n = Suc (chainLen cfg n')"
    unfolding n'_def using Suc.prems(1) nB by (rule chainLen_indirect)
  define need where "need = consumed cfg n - consumed cfg ?m"
  have need: "need = consumed cfg n' - consumed cfg (numBytes c)"
    by (simp add: need_def cn cm)
  show ?case
  proof (cases "NumClear fm < ?ns")
    case True
    then have "Extend cfg h fm dk n = Some (Inr (False, h, fm, dk))"
      by (intro Extend_gate_fails) simp
    with True show ?thesis by simp
  next
    case False
    then have gN: "?ns \<le> NumClear fm" by simp
    have step: "Extend cfg h fm dk n =
      (case Extend cfg c fm dk n' of
         None \<Rightarrow> None
       | Some (Inl e) \<Rightarrow> Some (Inl e)
       | Some (Inr (ok, child, fm1, dk1)) \<Rightarrow>
           if \<not> ok then Some (Inr (False, h, fm1, dk1))
           else Some (Inr (True, h\<lparr>numBytes := n, numSectors := ?ns\<rparr>, fm1, dk1(s := child))))"
      unfolding c_def s_def n'_def
      using gM gN nB mB s0 [unfolded s_def] by (rule Extend_indirect_step)
    have p5: "numBytes c \<le> n'" using cb Suc.prems(5) by (simp add: n'_def)
    have p6: "n' \<le> MaxFileSize cfg" using Suc.prems(6) B by (simp add: n'_def)
    have gN': "divRoundUp n' ?S \<le> NumClear fm" using ns' gN D by simp
    from Suc.IH [OF Suc.prems(1) lc dc sc p5 p6]
    show ?thesis
    proof (elim disjE conjE exE)
      assume "NumClear fm < divRoundUp n' ?S"
      with gN' show ?thesis by simp
    next
      assume "NumClear fm < consumed cfg n' - consumed cfg (numBytes c)"
        and "Extend cfg c fm dk n' = Some (Inl BadSector)"
      then have "Extend cfg h fm dk n = Some (Inl BadSector)" and "NumClear fm < need"
        using step need by simp_all
      with gN show ?thesis unfolding need_def by blast
    next
      fix c' dk1
      define fm' where "fm' = claimN (nat need) fm"
      define d' where "d' = chainLen cfg n'"
      assume need0: "0 \<le> consumed cfg n' - consumed cfg (numBytes c)"
        and en: "consumed cfg n' - consumed cfg (numBytes c) \<le> NumClear fm"
        and ex: "Extend cfg c fm dk n' =
           Some (Inr (True, c',
             claimN (nat (consumed cfg n' - consumed cfg (numBytes c))) fm, dk1))"
        and nb: "numBytes c' = n'"
        and lk: "linked cfg dk1 (chainLen cfg n') c'"
        and di: "distinct (inds cfg dk1 (chainLen cfg n') c')"
        and su: "set (inds cfg dk1 (chainLen cfg n') c') \<subseteq> set (inds cfg dk d c) \<union>
           (marked (claimN (nat (consumed cfg n' - consumed cfg (numBytes c))) fm) - marked fm)"
        and fr: "\<forall>t. t \<notin> set (inds cfg dk d c) \<union>
           (marked (claimN (nat (consumed cfg n' - consumed cfg (numBytes c))) fm) - marked fm)
             \<longrightarrow> dk1 t = dk t"
      define h' where "h' = h\<lparr>numBytes := n, numSectors := ?ns\<rparr>"
      define dk' where "dk' = dk1(s := c')"
      have a: "Extend cfg h fm dk n = Some (Inr (True, h', fm', dk'))"
        using step ex by (simp add: h'_def dk'_def fm'_def need)
      have su': "set (inds cfg dk1 d' c') \<subseteq> set (inds cfg dk d c) \<union> (marked fm' - marked fm)"
        using su by (simp add: fm'_def need d'_def)
      have fr': "\<forall>t. t \<notin> set (inds cfg dk d c) \<union> (marked fm' - marked fm) \<longrightarrow> dk1 t = dk t"
        using fr by (simp add: fm'_def need)
      have sn: "s \<notin> set (inds cfg dk1 d' c')" using su' sni sm by blast
      then have "\<forall>t \<in> set (inds cfg dk1 d' c'). dk' t = dk1 t"
        by (auto simp: dk'_def)
      note ag = linked_agree [OF this]
      have lk': "linked cfg dk' d' c'"
        using ag lk by (simp add: d'_def)
      have in': "inds cfg dk' d' c' = inds cfg dk1 d' c'"
        using ag by (rule conjunct2)
      have dks: "dk' s = c'" by (simp add: dk'_def)
      from Suc.prems(2) have len: "int (length (dataSectors h)) = NumDirect cfg" by simp
      have hf: "numBytes h' = n" "numSectors h' = ?ns"
        "int (length (dataSectors h')) = NumDirect cfg"
        "dataSectors h' ! nat ?D = s"
        using len by (simp_all add: h'_def s_def)
      have L: "linked cfg dk' (Suc d') h'"
        using nB hf s0 dks nb lk' by (simp add: n'_def)
      have I: "inds cfg dk' (Suc d') h' = s # inds cfg dk1 d' c'"
        using hf(4) in' dks by simp
      have Dn: "distinct (inds cfg dk' (Suc d') h')"
        unfolding I using di sn by (simp add: d'_def)
      have Su: "set (inds cfg dk' (Suc d') h') \<subseteq>
                  set (inds cfg dk (Suc d) h) \<union> (marked fm' - marked fm)"
        unfolding I I0 using su' by auto
      have Fr: "\<forall>t. t \<notin> set (inds cfg dk (Suc d) h) \<union> (marked fm' - marked fm) \<longrightarrow> dk' t = dk t"
        unfolding I0 using fr' by (auto simp: dk'_def)
      have nn: "\<not> n \<le> ?B" using nB by simp
      have need0': "0 \<le> need" and en': "need \<le> NumClear fm" using need0 en need by simp_all
      from a L Dn Su Fr hf(1) gN nn need0' en' show ?thesis
        unfolding need_def cl d'_def fm'_def
        by (intro disjI2 conjI exI [of _ h'] exI [of _ dk']) simp_all
    qed
  qed
qed

lemma Extend_True_char:
  assumes "cfg_ok cfg"
    and "linked cfg dk d h"
    and "distinct (inds cfg dk d h)"
    and "set (inds cfg dk d h) \<subseteq> marked fm"
    and "numBytes h \<le> n" and "n \<le> MaxFileSize cfg"
    and "Extend cfg h fm dk n = Some (Inr (True, h', fm', dk'))"
  shows "0 \<le> consumed cfg n - consumed cfg (numBytes h) \<and>
     consumed cfg n - consumed cfg (numBytes h) \<le> NumClear fm \<and>
     fm' = claimN (nat (consumed cfg n - consumed cfg (numBytes h))) fm \<and> numBytes h' = n \<and>
     linked cfg dk' (chainLen cfg n) h' \<and>
     distinct (inds cfg dk' (chainLen cfg n) h') \<and>
     set (inds cfg dk' (chainLen cfg n) h') \<subseteq> marked fm' \<and>
     (n \<le> (NumDirect cfg - 1) * SectorSize cfg \<longrightarrow>
        dataSectors h' ! nat (NumDirect cfg - 1) = dataSectors h ! nat (NumDirect cfg - 1))"
proof -
  have m: "marked fm \<subseteq> marked (claimN (nat (consumed cfg n - consumed cfg (numBytes h))) fm)"
    by (rule marked_claimN_mono)
  from Extend_char [OF assms(1-6)] assms(7) assms(4) m show ?thesis
    by (elim disjE conjE exE) auto
qed

lemma Extend_shrink_True_char:
  assumes "cfg_ok cfg"
    and "linked cfg dk d h"
    and "set (inds cfg dk d h) \<subseteq> marked fm"
    and "n < numBytes h"
    and "Extend cfg h fm dk n = Some (Inr (True, h', fm', dk'))"
  shows "if numSectors h' \<le> NumDirect cfg - 1
      then dataSectors h' ! nat (NumDirect cfg - 1) = dataSectors h ! nat (NumDirect cfg - 1)
      else lastSlotLinks cfg h' dk' fm'"
proof -
  let ?S = "SectorSize cfg"
  let ?D = "NumDirect cfg - 1"
  let ?B = "?D * ?S"
  let ?s = "dataSectors h ! nat ?D"
  have S: "0 < ?S" using assms(1) by (simp add: cfg_ok_def)
  have g: "divRoundUp n ?S \<le> MaxFileSize cfg \<and> divRoundUp n ?S \<le> NumClear fm"
  proof (rule ccontr)
    assume "\<not> ?thesis"
    then have "Extend cfg h fm dk n = Some (Inr (False, h, fm, dk))"
      by (intro Extend_gate_fails) auto
    with assms(5) show False by simp
  qed
  then have gM: "divRoundUp n ?S \<le> MaxFileSize cfg" and gN: "divRoundUp n ?S \<le> NumClear fm"
    by simp_all
  from Extend_shrink [OF assms(1,2,4) gM gN] assms(5)
  have h': "h' = h\<lparr>numBytes := n, numSectors := divRoundUp n ?S\<rparr>" and fm': "fm' = fm"
    and dk': "?B < n \<longrightarrow>
       dk' ?s = (dk ?s)\<lparr>numBytes := n - ?B, numSectors := divRoundUp (n - ?B) ?S\<rparr>"
    by auto
  show ?thesis
  proof (cases "numSectors h' \<le> ?D")
    case True
    then show ?thesis by (simp add: h')
  next
    case False
    then have "?D < divRoundUp n ?S" by (simp add: h')
    then have nB: "?B < n" using S by (simp only: divRoundUp_gt)
    then have "?B < numBytes h" using assms(4) by simp
    then obtain d' where d: "d = Suc d'" using assms(2) by (cases d) auto
    from assms(2,3) have s0: "0 \<le> ?s" and sm: "?s \<in> marked fm"
      unfolding d by simp_all
    have f: "FetchFrom dk' ?s = Inr (dk' ?s)" using s0 by (simp add: FetchFrom_def ReadSector_def)
    have "numSectors (dk' ?s) = divRoundUp n ?S - ?D"
      using dk' nB S by (simp add: divRoundUp_diff)
    moreover have "numBytes (dk' ?s) = n - ?B" using dk' nB by simp
    ultimately have "lastSlotLinks cfg h' dk' fm'"
      unfolding lastSlotLinks_def using f sm by (simp add: h' fm')
    with False show ?thesis by simp
  qed
qed

subsection \<open>Runs on the example constants\<close>

lemma example_cfg_ok: "cfg_ok exampleConfig"
  by (simp add: cfg_ok_def exampleConfig_def)

lemma example_new_length:
  "int (length (dataSectors (newFileHeader exampleConfig))) = NumDirect exampleConfig"
  by (simp add: newFileHeader_def exampleConfig_def)

lemma example_consumed_3840: "consumed exampleConfig 3840 = 31"
  by (simp add: consumed_def chainLen_def divRoundUp_def exampleConfig_def)

lemma example_consumed_3841: "consumed exampleConfig 3841 = 32"
  by (simp add: consumed_def chainLen_def divRoundUp_def exampleConfig_def)

lemma example_chainLen_3840: "chainLen exampleConfig 3840 = 1"
  by (simp add: chainLen_def exampleConfig_def)

lemma example_Allocate_500:
  "\<exists>h' fm' dk'. Allocate exampleConfig (newFileHeader exampleConfig) (replicate 32 False)
      exampleDisk 500 = Some (Inr (True, h', fm', dk'))"
proof -
  have "case Allocate exampleConfig (newFileHeader exampleConfig) (replicate 32 False)
      exampleDisk 500 of Some (Inr (ok, _)) \<Rightarrow> ok | _ \<Rightarrow> False"
    by code_simp
  then show ?thesis
    by (auto split: option.splits sum.splits prod.splits)
qed

lemma example_Allocate_Extend:
  "\<exists>h1 fm1 dk1 h2 fm2 dk2.
     Allocate exampleConfig (newFileHeader exampleConfig) (replicate 64 False) exampleDisk 500
       = Some (Inr (True, h1, fm1, dk1)) \<and>
     Extend exampleConfig h1 fm1 dk1 3800 = Some (Inr (True, h2, fm2, dk2))"
proof -
  have c: "case Allocate exampleConfig (newFileHeader exampleConfig) (replicate 64 False)
      exampleDisk 500 of
        Some (Inr (ok, h1, fm1, dk1)) \<Rightarrow>
          ok \<and> (case Extend exampleConfig h1 fm1 dk1 3800 of
                  Some (Inr (ok', _)) \<Rightarrow> ok' | _ \<Rightarrow> False)
      | _ \<Rightarrow> False"
    by code_simp
  then obtain h1 fm1 dk1 where
    a: "Allocate exampleConfig (newFileHeader exampleConfig) (replicate 64 False) exampleDisk 500
       = Some (Inr (True, h1, fm1, dk1))"
    by (cases "Allocate exampleConfig (newFileHeader exampleConfig) (replicate 64 False)
       exampleDisk 500") (auto split: sum.splits)
  with c have "case Extend exampleConfig h1 fm1 dk1 3800 of
                  Some (Inr (ok', _)) \<Rightarrow> ok' | _ \<Rightarrow> False"
    by simp
  then obtain h2 fm2 dk2 where
    "Extend exampleConfig h1 fm1 dk1 3800 = Some (Inr (True, h2, fm2, dk2))"
    by (cases "Extend exampleConfig h1 fm1 dk1 3800") (auto split: sum.splits)
  with a show ?thesis by blast
qed

lemma example_Allocate_3840:
  "\<exists>h1 dk1. Allocate exampleConfig (newFileHeader exampleConfig) (replicate 80 False)
       exampleDisk 3840 = Some (Inr (True, h1, claimN 31 (replicate 80 False), dk1)) \<and>
     numBytes h1 = 3840 \<and>
     linked exampleConfig dk1 1 h1 \<and>
     distinct (inds exampleConfig dk1 1 h1) \<and>
     set (inds exampleConfig dk1 1 h1) \<subseteq> marked (claimN 31 (replicate 80 False))"
proof -
  have 3: "(0::int) \<le> 3840" by simp
  have 4: "3840 \<le> MaxFileSize exampleConfig" by (simp add: exampleConfig_def)
  have 5: "divRoundUp 3840 (SectorSize exampleConfig) \<le> NumClear (replicate 80 False)"
    by (simp add: NumClear_replicate divRoundUp_def exampleConfig_def)
  from Allocate_char [OF example_cfg_ok example_new_length 3 4 5, of exampleDisk]
  show ?thesis
    unfolding example_consumed_3840 example_chainLen_3840
    by (simp add: NumClear_replicate) blast
qed

lemma example_three_steps:
  "\<exists>h1 fm1 dk1 h2 fm2 dk2 h3 fm3 dk3.
     Allocate exampleConfig (newFileHeader exampleConfig) (replicate 80 False) exampleDisk 500
       = Some (Inr (True, h1, fm1, dk1)) \<and>
     Extend exampleConfig h1 fm1 dk1 2000 = Some (Inr (True, h2, fm2, dk2)) \<and>
     Extend exampleConfig h2 fm2 dk2 3800 = Some (Inr (True, h3, fm3, dk3))"
proof -
  have c: "case Allocate exampleConfig (newFileHeader exampleConfig) (replicate 80 False)
      exampleDisk 500 of
        Some (Inr (ok, h1, fm1, dk1)) \<Rightarrow>
          ok \<and> (case Extend exampleConfig h1 fm1 dk1 2000 of
                  Some (Inr (ok', h2, fm2, dk2)) \<Rightarrow>
                    ok' \<and> (case Extend exampleConfig h2 fm2 dk2 3800 of
                            Some (Inr (ok'', _)) \<Rightarrow> ok'' | _ \<Rightarrow> False)
                | _ \<Rightarrow> False)
      | _ \<Rightarrow> False"
    by code_simp
  then obtain h1 fm1 dk1 where
    a: "Allocate exampleConfig (newFileHeader exampleConfig) (replicate 80 False) exampleDisk 500
       = Some (Inr (True, h1, fm1, dk1))"
    by (cases "Allocate exampleConfig (newFileHeader exampleConfig) (replicate 80 False)
       exampleDisk 500") (auto split: sum.splits)
  with c have c2: "case Extend exampleConfig h1 fm1 dk1 2000 of
                  Some (Inr (ok', h2, fm2, dk2)) \<Rightarrow>
                    ok' \<and> (case Extend exampleConfig h2 fm2 dk2 3800 of
                            Some (Inr (ok'', _)) \<Rightarrow> ok'' | _ \<Rightarrow> False)
                | _ \<Rightarrow> False"
    by simp
  then obtain h2 fm2 dk2 where
    e1: "Extend exampleConfig h1 fm1 dk1 2000 = Some (Inr (True, h2, fm2, dk2))"
    by (cases "Extend exampleConfig h1 fm1 dk1 2000") (auto split: sum.splits)
  with c2 have "case Extend exampleConfig h2 fm2 dk2 3800 of
                            Some (Inr (ok'', _)) \<Rightarrow> ok'' | _ \<Rightarrow> False"
    by simp
  then obtain h3 fm3 dk3 where
    "Extend exampleConfig h2 fm2 dk2 3800 = Some (Inr (True, h3, fm3, dk3))"
    by (cases "Extend exampleConfig h2 fm2 dk2 3800") (auto split: sum.splits)
  with a e1 show ?thesis by blast
qed

subsection \<open>The last entry of the table\<close>

text \<open>
  Claim C1, as amended. The threshold is \<open>NumDirect - 1\<close>, not \<open>NumDirect\<close>.
  After a successful \<open>Allocate\<close>, and after a successful \<open>Extend\<close> of a chain
  (to a smaller size, or to a size within the maximum), the last entry of the table is
  the sector of the next header of the chain whenever the sector count is above
  \<open>NumDirect - 1\<close>, and is left as it was (it is no part of the file) whenever the
  sector count is at most \<open>NumDirect - 1\<close>; \<open>ByteToSector\<close> reads the entry by the
  same threshold.
\<close>

theorem last_slot_links_above_direct:
  assumes "cfg_ok cfg"
  shows
   "(int (length (dataSectors h)) = NumDirect cfg \<and>
       Allocate cfg h fm dk n = Some (Inr (True, h', fm', dk')) \<longrightarrow>
     (if numSectors h' \<le> NumDirect cfg - 1
      then dataSectors h' ! nat (NumDirect cfg - 1) = dataSectors h ! nat (NumDirect cfg - 1)
      else lastSlotLinks cfg h' dk' fm')) \<and>
    (linked cfg dk d h \<and> distinct (inds cfg dk d h) \<and> set (inds cfg dk d h) \<subseteq> marked fm \<and>
       (n < numBytes h \<or> n \<le> MaxFileSize cfg) \<and>
       Extend cfg h fm dk n = Some (Inr (True, h', fm', dk')) \<longrightarrow>
     (if numSectors h' \<le> NumDirect cfg - 1
      then dataSectors h' ! nat (NumDirect cfg - 1) = dataSectors h ! nat (NumDirect cfg - 1)
      else lastSlotLinks cfg h' dk' fm')) \<and>
    ByteToSector cfg g dk off =
      (if numSectors g \<le> NumDirect cfg - 1
       then Some (ArrayLoad (dataSectors g) (off sdiv SectorSize cfg))
       else case FetchFrom dk (dataSectors g ! nat (NumDirect cfg - 1)) of
              Inl e \<Rightarrow> Some (Inl e)
            | Inr c \<Rightarrow> ByteToSector cfg c dk (off - (NumDirect cfg - 1) * SectorSize cfg))"
proof (intro conjI impI)
  let ?S = "SectorSize cfg"
  let ?goal = "if numSectors h' \<le> NumDirect cfg - 1
      then dataSectors h' ! nat (NumDirect cfg - 1) = dataSectors h ! nat (NumDirect cfg - 1)
      else lastSlotLinks cfg h' dk' fm'"
  have S: "0 < ?S" and D: "0 \<le> NumDirect cfg - 1" using assms by (simp_all add: cfg_ok_def)
  {
    assume linked: "linked cfg dk' (chainLen cfg n) h'"
      and sub: "set (inds cfg dk' (chainLen cfg n) h') \<subseteq> marked fm'"
      and nb: "numBytes h' = n"
      and slot: "n \<le> (NumDirect cfg - 1) * ?S \<longrightarrow>
        dataSectors h' ! nat (NumDirect cfg - 1) = dataSectors h ! nat (NumDirect cfg - 1)"
    have ns: "numSectors h' = divRoundUp n ?S"
      using linked_numSectors [OF linked] nb by simp
    have ?goal
    proof (cases "numSectors h' \<le> NumDirect cfg - 1")
      case True
      then have "n \<le> (NumDirect cfg - 1) * ?S"
        using divRoundUp_le [OF S, of n "NumDirect cfg - 1"] ns by simp
      with slot True show ?thesis by simp
    next
      case False
      then have "NumDirect cfg - 1 < numSectors h'" by simp
      with linked_lastSlot [OF assms, of dk' h' fm'] linked sub nb False
      show ?thesis by simp
    qed
  }
  note main = this
  {
    assume a: "int (length (dataSectors h)) = NumDirect cfg \<and>
       Allocate cfg h fm dk n = Some (Inr (True, h', fm', dk'))"
    then have len: "int (length (dataSectors h)) = NumDirect cfg"
      and al: "Allocate cfg h fm dk n = Some (Inr (True, h', fm', dk'))" by simp_all
    show ?goal
    proof (cases "0 \<le> n")
      case True
      note c = Allocate_True_char [OF assms len True al]
      from c have 1: "linked cfg dk' (chainLen cfg n) h'" by blast
      from c have 2: "set (inds cfg dk' (chainLen cfg n) h') \<subseteq> marked fm'" by blast
      from c have 3: "numBytes h' = n" by blast
      from c have 4: "n \<le> (NumDirect cfg - 1) * ?S \<longrightarrow>
          dataSectors h' ! nat (NumDirect cfg - 1) = dataSectors h ! nat (NumDirect cfg - 1)"
        by blast
      from 1 2 3 4 show ?thesis by (rule main)
    next
      case False
      then have "n < 0" by simp
      from Allocate_negative_size [OF assms this al] D show ?thesis by auto
    qed
  }
  {
    assume a: "linked cfg dk d h \<and> distinct (inds cfg dk d h) \<and>
       set (inds cfg dk d h) \<subseteq> marked fm \<and>
       (n < numBytes h \<or> n \<le> MaxFileSize cfg) \<and>
       Extend cfg h fm dk n = Some (Inr (True, h', fm', dk'))"
    then have l: "linked cfg dk d h" and di: "distinct (inds cfg dk d h)"
      and su: "set (inds cfg dk d h) \<subseteq> marked fm"
      and sz: "n < numBytes h \<or> n \<le> MaxFileSize cfg"
      and ex: "Extend cfg h fm dk n = Some (Inr (True, h', fm', dk'))" by simp_all
    show ?goal
    proof (cases "n < numBytes h")
      case True
      from assms l su True ex show ?thesis by (rule Extend_shrink_True_char)
    next
      case False
      then have mn: "numBytes h \<le> n" and nM: "n \<le> MaxFileSize cfg" using sz by simp_all
      note c = Extend_True_char [OF assms l di su mn nM ex]
      from c have 1: "linked cfg dk' (chainLen cfg n) h'" by blast
      from c have 2: "set (inds cfg dk' (chainLen cfg n) h') \<subseteq> marked fm'" by blast
      from c have 3: "numBytes h' = n" by blast
      from c have 4: "n \<le> (NumDirect cfg - 1) * ?S \<longrightarrow>
          dataSectors h' ! nat (NumDirect cfg - 1) = dataSectors h ! nat (NumDirect cfg - 1)"
        by blast
      from 1 2 3 4 show ?thesis by (rule main)
    qed
  }
  show "ByteToSector cfg g dk off =
      (if numSectors g \<le> NumDirect cfg - 1
       then Some (ArrayLoad (dataSectors g) (off sdiv SectorSize cfg))
       else case FetchFrom dk (dataSectors g ! nat (NumDirect cfg - 1)) of
              Inl e \<Rightarrow> Some (Inl e)
            | Inr c \<Rightarrow> ByteToSector cfg c dk (off - (NumDirect cfg - 1) * SectorSize cfg))"
    by (rule ByteToSector.simps)
qed

theorem last_slot_links_above_direct_witness:
  "(\<exists>h1 fm1 dk1.
      Allocate exampleConfig (newFileHeader exampleConfig) (replicate 80 False) exampleDisk 3840
        = Some (Inr (True, h1, fm1, dk1)) \<and>
      numSectors h1 = 30 \<and> lastSlotLinks exampleConfig h1 dk1 fm1) \<and>
   (\<exists>h1 fm1 dk1 h2 fm2 dk2.
      Allocate exampleConfig (newFileHeader exampleConfig) (replicate 64 False) exampleDisk 500
        = Some (Inr (True, h1, fm1, dk1)) \<and>
      Extend exampleConfig h1 fm1 dk1 3800 = Some (Inr (True, h2, fm2, dk2)) \<and>
      numSectors h2 = 30 \<and> lastSlotLinks exampleConfig h2 dk2 fm2)"
proof (intro conjI)
  note t = last_slot_links_above_direct [OF example_cfg_ok]
  have ns: "divRoundUp 3840 (SectorSize exampleConfig) = 30"
    by (simp add: divRoundUp_def exampleConfig_def)
  have K: "NumDirect exampleConfig - 1 = 29" by (simp add: exampleConfig_def)
  from example_Allocate_3840 obtain h1 dk1 where
    a: "Allocate exampleConfig (newFileHeader exampleConfig) (replicate 80 False)
       exampleDisk 3840 = Some (Inr (True, h1, claimN 31 (replicate 80 False), dk1))"
    by blast
  from Allocate_True_fields [OF a] ns have s: "numSectors h1 = 30" by simp
  have "lastSlotLinks exampleConfig h1 dk1 (claimN 31 (replicate 80 False))"
    using t [where h = "newFileHeader exampleConfig" and n = 3840 and fm = "replicate 80 False"
        and dk = exampleDisk and h' = h1 and fm' = "claimN 31 (replicate 80 False)" and dk' = dk1]
      a s K example_new_length
    by simp
  with a s show "\<exists>h1 fm1 dk1.
      Allocate exampleConfig (newFileHeader exampleConfig) (replicate 80 False) exampleDisk 3840
        = Some (Inr (True, h1, fm1, dk1)) \<and>
      numSectors h1 = 30 \<and> lastSlotLinks exampleConfig h1 dk1 fm1"
    by blast
next
  note t = last_slot_links_above_direct [OF example_cfg_ok]
  have ns: "divRoundUp 3800 (SectorSize exampleConfig) = 30"
    by (simp add: divRoundUp_def exampleConfig_def)
  have K: "NumDirect exampleConfig - 1 = 29" by (simp add: exampleConfig_def)
  have M: "3800 \<le> MaxFileSize exampleConfig" by (simp add: exampleConfig_def)
  from example_Allocate_Extend obtain h1 fm1 dk1 h2 fm2 dk2 where
    a: "Allocate exampleConfig (newFileHeader exampleConfig) (replicate 64 False) exampleDisk 500
       = Some (Inr (True, h1, fm1, dk1))"
    and e: "Extend exampleConfig h1 fm1 dk1 3800 = Some (Inr (True, h2, fm2, dk2))"
    by blast
  have n0: "(0::int) \<le> 500" by simp
  note c = Allocate_True_char [OF example_cfg_ok example_new_length n0 a]
  from c have l: "linked exampleConfig dk1 (chainLen exampleConfig 500) h1"
    and d: "distinct (inds exampleConfig dk1 (chainLen exampleConfig 500) h1)"
    and su: "set (inds exampleConfig dk1 (chainLen exampleConfig 500) h1) \<subseteq> marked fm1"
    and nb: "numBytes h1 = 500"
    by blast+
  from Extend_True_fields [OF e] ns have s: "numSectors h2 = 30" by simp
  have "lastSlotLinks exampleConfig h2 dk2 fm2"
    using t [where h = h1 and dk = dk1 and d = "chainLen exampleConfig 500" and fm = fm1
        and n = 3800 and h' = h2 and fm' = fm2 and dk' = dk2]
      l d su nb M e s K
    by simp
  with a e s show "\<exists>h1 fm1 dk1 h2 fm2 dk2.
      Allocate exampleConfig (newFileHeader exampleConfig) (replicate 64 False) exampleDisk 500
        = Some (Inr (True, h1, fm1, dk1)) \<and>
      Extend exampleConfig h1 fm1 dk1 3800 = Some (Inr (True, h2, fm2, dk2)) \<and>
      numSectors h2 = 30 \<and> lastSlotLinks exampleConfig h2 dk2 fm2"
    by blast
qed

text \<open>
  The claim as it stands fails on a file of exactly \<open>NumDirect\<close> sectors: the sector
  count is not above \<open>NumDirect\<close>, yet the last entry (sector 30) holds the header of
  the 30th sector of the file (sector 29), which \<open>ByteToSector\<close> finds through it,
  while \<open>Deallocate\<close> clears the entry as a data sector and leaves sector 29 marked.
\<close>

theorem last_slot_at_NumDirect_sectors_counterexample:
  "case Allocate exampleConfig (newFileHeader exampleConfig) (replicate 40 False) exampleDisk 3840 of
     Some (Inr (ok, h, fm, dk)) \<Rightarrow>
       ok \<and> numSectors h = 30 \<and> numSectors h \<le> NumDirect exampleConfig \<and>
       dataSectors h ! 29 = 30 \<and>
       FetchFrom dk 30 = Inr \<lparr>numBytes = 128, numSectors = 1, dataSectors = 29 # replicate 29 0\<rparr> \<and>
       ByteToSector exampleConfig h dk 3712 = Some (Inr 29) \<and>
       Deallocate exampleConfig h fm dk = Some (Inr ((replicate 40 False)[29 := True]))
   | _ \<Rightarrow> False"
  by code_simp

subsection \<open>Free sectors after Allocate and Deallocate\<close>

text \<open>
  A successful \<open>Allocate\<close> takes as many sectors from the free map as the file has
  data sectors and further headers.
\<close>

lemma Allocate_takes_its_sectors:
  assumes "cfg_ok cfg"
    and "int (length (dataSectors h)) = NumDirect cfg"
    and "0 \<le> n"
    and "Allocate cfg h fm dk n = Some (Inr (True, h', fm', dk'))"
  shows "NumClear fm' = NumClear fm - (divRoundUp n (SectorSize cfg) + int (chainLen cfg n))"
proof -
  note c = Allocate_True_char [OF assms]
  from c have e: "consumed cfg n \<le> NumClear fm" and f: "fm' = claimN (nat (consumed cfg n)) fm"
    by blast+
  have "0 \<le> consumed cfg n" using assms(1,3) by (rule consumed_nonneg)
  with e have "int (nat (consumed cfg n)) \<le> NumClear fm" by simp
  from NumClear_claimN [OF this] f \<open>0 \<le> consumed cfg n\<close> show ?thesis
    by (simp add: consumed_def)
qed

text \<open>
  Claim C2 fails on the code. For a file of exactly \<open>NumDirect\<close> sectors
  \<open>Allocate\<close> takes \<open>NumDirect + 1\<close> sectors (the data sectors and the sector of
  the second header), and \<open>Deallocate\<close>, whose test is \<open>numSectors <= NumDirect\<close>,
  clears the \<open>NumDirect\<close> entries of the table: the data sector of the second header
  stays marked, and one sector fewer is clear than before \<open>Allocate\<close>.
\<close>

theorem Deallocate_leaks_at_NumDirect_sectors:
  assumes "cfg_ok cfg"
    and "int (length (dataSectors h)) = NumDirect cfg"
    and "NumDirect cfg * SectorSize cfg \<le> MaxFileSize cfg"
    and "NumDirect cfg + 1 \<le> NumClear fm"
  shows "\<exists>h' fm' dk' fm''.
     Allocate cfg h fm dk (NumDirect cfg * SectorSize cfg) = Some (Inr (True, h', fm', dk')) \<and>
     numSectors h' = NumDirect cfg \<and>
     NumClear fm' = NumClear fm - (NumDirect cfg + 1) \<and>
     Deallocate cfg h' fm' dk' = Some (Inr fm'') \<and>
     NumClear fm'' = NumClear fm - 1"
proof -
  let ?S = "SectorSize cfg"
  let ?K = "NumDirect cfg"
  let ?D = "?K - 1"
  let ?B = "?D * ?S"
  let ?n = "?K * ?S"
  have S: "0 < ?S" and D: "1 \<le> ?D" using assms(1) by (simp_all add: cfg_ok_def)
  have B: "0 < ?B" using assms(1) by (rule directBytes_pos)
  have nBS: "?n - ?B = ?S" by (simp add: left_diff_distrib)
  have nB: "?B < ?n" using nBS S by linarith
  have SB: "?S \<le> ?B" using S D by (simp add: mult_le_cancel_right1)
  have S0: "?S \<noteq> 0" using S by simp
  have ns: "divRoundUp ?n ?S = ?K" using S0 by (rule divRoundUp_mult)
  have nsS: "divRoundUp ?S ?S = 1" using divRoundUp_mult [OF S0, of 1] by simp
  have gN: "divRoundUp ?n ?S \<le> NumClear fm" using ns assms(4) by simp
  have DK: "?D \<le> int (length (dataSectors h))" using assms(2) by simp
  from FindLoop_char [OF order_refl DK, of fm] obtain ds1 where
    fl: "FindLoop 0 ?D (dataSectors h) fm = Inr (ds1, claimN (nat ?D) fm)"
    and len1: "length ds1 = length (dataSectors h)"
    by auto
  define fm1 where "fm1 = claimN (nat ?D) fm"
  have "?D - 0 \<le> NumClear fm" using assms(4) by simp
  from FindLoop_entries [OF order_refl DK this fl] have
    ent1: "\<forall>j. j < nat ?D \<longrightarrow> ds1 ! j \<in> marked fm1"
    and inj1: "inj_on ((!) ds1) {0..<nat ?D}"
    by (simp_all add: fm1_def)
  have "int (nat ?D) \<le> NumClear fm" using assms(4) D by simp
  from NumClear_claimN [OF this]
  have nc1: "NumClear fm1 = NumClear fm - ?D" using D by (simp add: fm1_def)
  have cS: "consumed cfg ?S = 1"
    using consumed_direct [OF assms(1) SB] nsS by simp
  have p2: "int (length (dataSectors (newFileHeader cfg))) = NumDirect cfg"
    using D by (simp add: newFileHeader_def)
  have p3: "0 \<le> ?S" using S by simp
  have p4: "?S \<le> MaxFileSize cfg" using nB B nBS assms(3) by linarith
  have p5: "divRoundUp ?S ?S \<le> NumClear fm1" using nsS nc1 assms(4) by simp
  have "consumed cfg ?S \<le> NumClear fm1" using cS nc1 assms(4) by simp
  with Allocate_char [OF assms(1) p2 p3 p4 p5, of dk] obtain c' dk2 where
    al: "Allocate cfg (newFileHeader cfg) fm1 dk ?S =
       Some (Inr (True, c', claimN (nat (consumed cfg ?S)) fm1, dk2))"
    by auto
  define fm2 where "fm2 = claimN (nat (consumed cfg ?S)) fm1"
  have nc2: "NumClear fm2 = NumClear fm1 - 1"
    unfolding fm2_def cS using NumClear_claimN [of 1 fm1] nc1 assms(4) D by simp
  have m12: "marked fm1 \<subseteq> marked fm2" unfolding fm2_def by (rule marked_claimN_mono)
  have pos: "0 < NumClear fm2" using nc2 nc1 assms(4) by simp
  define s where "s = fst (Find fm2)"
  define fm3 where "fm3 = snd (Find fm2)"
  define h' where
    "h' = h\<lparr>numBytes := ?n, numSectors := divRoundUp ?n ?S, dataSectors := ds1[nat ?D := s]\<rparr>"
  define dk' where "dk' = dk2(s := c')"
  from marked_Find [OF pos] have
    s1: "s \<notin> marked fm2" and s0: "0 \<le> s" and
    m3: "marked fm3 = insert s (marked fm2)"
    by (simp_all add: s_def fm3_def)
  have nc3: "NumClear fm3 = NumClear fm2 - 1"
    unfolding fm3_def using pos by (rule NumClear_Find)
  have a: "Allocate cfg h fm dk ?n = Some (Inr (True, h', fm3, dk'))"
    using Allocate_indirect_step [OF assms(3) gN nB fl, of dk] al s0
    by (simp add: nBS fm1_def fm2_def s_def fm3_def h'_def dk'_def)
  have hs: "numSectors h' = ?K" by (simp add: h'_def ns)
  have nc: "NumClear fm3 = NumClear fm - (?K + 1)" using nc3 nc2 nc1 by simp
  have dl: "Deallocate cfg h' fm3 dk' = Some (ClearLoop 0 ?K (dataSectors h') fm3)"
    using hs by (subst Deallocate.simps) simp
  have lenh: "?K \<le> int (length (dataSectors h'))"
    using len1 assms(2) by (simp add: h'_def)
  have nD: "nat ?D < length ds1" using len1 assms(2) D by linarith
  have natK: "nat ?K = Suc (nat ?D)" using D by linarith
  have ent: "\<forall>j. nat 0 \<le> j \<and> j < nat ?K \<longrightarrow> dataSectors h' ! j \<in> marked fm3"
  proof (intro allI impI)
    fix j assume "nat 0 \<le> j \<and> j < nat ?K"
    then have "j < nat ?D \<or> j = nat ?D" unfolding natK by auto
    then show "dataSectors h' ! j \<in> marked fm3"
    proof
      assume j: "j < nat ?D"
      with ent1 have "ds1 ! j \<in> marked fm1" by blast
      with m12 m3 j show ?thesis by (auto simp: h'_def)
    next
      assume "j = nat ?D"
      with m3 nD show ?thesis by (simp add: h'_def)
    qed
  qed
  have inj: "inj_on ((!) (dataSectors h')) {nat 0..<nat ?K}"
  proof (rule inj_onI)
    fix x y
    assume x: "x \<in> {nat 0..<nat ?K}" and y: "y \<in> {nat 0..<nat ?K}"
      and e: "dataSectors h' ! x = dataSectors h' ! y"
    have old: "\<And>j. j < nat ?D \<Longrightarrow> dataSectors h' ! j = ds1 ! j \<and> ds1 ! j \<noteq> s"
    proof -
      fix j assume j: "j < nat ?D"
      with ent1 have "ds1 ! j \<in> marked fm1" by blast
      with m12 s1 have "ds1 ! j \<noteq> s" by auto
      with j show "dataSectors h' ! j = ds1 ! j \<and> ds1 ! j \<noteq> s" by (simp add: h'_def)
    qed
    have new: "dataSectors h' ! nat ?D = s" using nD by (simp add: h'_def)
    from x y have cx: "x < nat ?D \<or> x = nat ?D" and cy: "y < nat ?D \<or> y = nat ?D"
      unfolding natK by auto
    from cx cy show "x = y"
    proof (elim disjE)
      assume "x < nat ?D" "y < nat ?D"
      with e old inj1 show ?thesis by (auto dest: inj_onD)
    next
      assume "x < nat ?D" "y = nat ?D"
      with e old [of x] new show ?thesis by simp
    next
      assume "x = nat ?D" "y < nat ?D"
      with e old [of y] new show ?thesis by simp
    next
      assume "x = nat ?D" "y = nat ?D"
      then show ?thesis by simp
    qed
  qed
  from ClearLoop_char [OF order_refl lenh ent inj] obtain fm'' where
    cl: "ClearLoop 0 ?K (dataSectors h') fm3 = Inr fm''"
    and ncl: "NumClear fm'' = NumClear fm3 + int (nat (?K - 0))"
    by blast
  have "NumClear fm'' = NumClear fm - 1" using ncl nc D by simp
  with a hs nc dl cl show ?thesis by auto
qed

theorem Deallocate_leaks_at_NumDirect_sectors_witness:
  "\<exists>h' fm' dk' fm''.
     Allocate exampleConfig (newFileHeader exampleConfig) (replicate 40 False) exampleDisk 3840
       = Some (Inr (True, h', fm', dk')) \<and>
     numSectors h' = 30 \<and>
     NumClear fm' = 9 \<and>
     Deallocate exampleConfig h' fm' dk' = Some (Inr fm'') \<and>
     NumClear fm'' = 39 \<and> NumClear (replicate 40 False) = 40"
proof -
  have 3: "NumDirect exampleConfig * SectorSize exampleConfig \<le> MaxFileSize exampleConfig"
    and 4: "NumDirect exampleConfig + 1 \<le> NumClear (replicate 40 False)"
    and n: "NumDirect exampleConfig * SectorSize exampleConfig = 3840"
    and k: "NumDirect exampleConfig = 30"
    and n2: "30 * SectorSize exampleConfig = 3840"
    by (simp_all add: exampleConfig_def NumClear_replicate)
  from Deallocate_leaks_at_NumDirect_sectors [OF example_cfg_ok example_new_length 3 4,
      of exampleDisk]
  show ?thesis unfolding k n2 by (simp add: NumClear_replicate)
qed

text \<open>The same run on the example constants: sector 29 is the one that stays marked.\<close>

lemma example_Deallocate_3840:
  "NumClear (replicate 40 False) = 40 \<and>
   (case Allocate exampleConfig (newFileHeader exampleConfig) (replicate 40 False) exampleDisk 3840 of
     Some (Inr (ok, h, fm, dk)) \<Rightarrow>
       ok \<and> numSectors h = 30 \<and> NumClear fm = 40 - 31 \<and>
       (case Deallocate exampleConfig h fm dk of
          Some (Inr fm') \<Rightarrow> NumClear fm' = 39 \<and> fm' ! 29
        | _ \<Rightarrow> False)
   | _ \<Rightarrow> False)"
  by code_simp

subsection \<open>The size test of Extend\<close>

text \<open>
  Claim C3 fails on the code. \<open>Extend\<close> compares the number of sectors with
  \<open>MaxFileSize\<close>, which \<open>Allocate\<close> compares with the number of bytes. Whatever the
  maximum is, with sectors of two bytes or more a size of one byte above it is refused
  by \<open>Allocate\<close>, while \<open>Extend\<close> grows an empty file to it and returns true when
  the free map has the sectors.
\<close>

theorem Extend_lets_size_above_MaxFileSize_pass:
  assumes "cfg_ok cfg"
    and "2 \<le> SectorSize cfg"
    and "1 \<le> MaxFileSize cfg"
    and "linked cfg dk 0 h" and "numBytes h = 0"
    and "consumed cfg (MaxFileSize cfg + 1) \<le> NumClear fm"
  shows "Allocate cfg h fm dk (MaxFileSize cfg + 1) = Some (Inr (False, h, fm, dk)) \<and>
    (\<exists>h' fm' dk'. Extend cfg h fm dk (MaxFileSize cfg + 1) = Some (Inr (True, h', fm', dk')) \<and>
       numBytes h' = MaxFileSize cfg + 1)"
proof
  show "Allocate cfg h fm dk (MaxFileSize cfg + 1) = Some (Inr (False, h, fm, dk))"
    by (subst Allocate.simps) simp
next
  let ?S = "SectorSize cfg"
  let ?D = "NumDirect cfg - 1"
  let ?B = "?D * ?S"
  let ?M = "MaxFileSize cfg"
  let ?n = "?M + 1"
  let ?ns = "divRoundUp ?n ?S"
  have S: "0 < ?S" and D: "1 \<le> ?D" using assms(1) by (simp_all add: cfg_ok_def)
  have B: "0 < ?B" using assms(1) by (rule directBytes_pos)
  have "?M + ?M \<le> ?M * ?S" using assms(2,3) by (simp add: mult_mono' mult_2 [symmetric] mult.commute)
  then have "?n \<le> ?M * ?S" using assms(3) by linarith
  then have gM: "?ns \<le> ?M" using S by (simp only: divRoundUp_le)
  have gN: "?ns \<le> NumClear fm"
    using divRoundUp_le_consumed [of ?n cfg] assms(6) by linarith
  from assms(4,5) have nsh: "numSectors h = 0"
    and len: "int (length (dataSectors h)) = NumDirect cfg"
    by (simp_all add: divRoundUp_def)
  show "\<exists>h' fm' dk'. Extend cfg h fm dk ?n = Some (Inr (True, h', fm', dk')) \<and> numBytes h' = ?n"
  proof (cases "?n \<le> ?B")
    case True
    have "?ns \<le> ?D" using S True by (rule divRoundUp_le [THEN iffD2])
    then have "?ns \<le> int (length (dataSectors h))" using len by simp
    from FindLoop_char [OF order_refl this, of fm] obtain ds1 fm1 where
      "FindLoop (numSectors h) ?ns (dataSectors h) fm = Inr (ds1, fm1)"
      unfolding nsh by blast
    from Extend_direct_step [OF gM gN True this, of dk] show ?thesis by simp
  next
    case False
    then have nB: "?B < ?n" by simp
    have mB: "numBytes h \<le> ?B" using assms(5) B by simp
    have DK: "?D \<le> int (length (dataSectors h))" using len by simp
    from FindLoop_char [OF order_refl DK, of fm] obtain ds1 where
      fl: "FindLoop (numSectors h) ?D (dataSectors h) fm = Inr (ds1, claimN (nat ?D) fm)"
      unfolding nsh by auto
    define fm1 where "fm1 = claimN (nat ?D) fm"
    define n' where "n' = ?n - ?B"
    have c: "consumed cfg ?n = ?D + consumed cfg n' + 1"
      unfolding n'_def using assms(1) nB by (rule consumed_indirect)
    have c'0: "0 \<le> consumed cfg n'"
      using assms(1) nB by (intro consumed_nonneg) (simp_all add: n'_def)
    have "int (nat ?D) \<le> NumClear fm" using assms(6) c c'0 D by simp
    from NumClear_claimN [OF this]
    have nc1: "NumClear fm1 = NumClear fm - ?D" using D by (simp add: fm1_def)
    have p2: "int (length (dataSectors (newFileHeader cfg))) = NumDirect cfg"
      using D by (simp add: newFileHeader_def)
    have p3: "0 \<le> n'" using nB by (simp add: n'_def)
    have p4: "n' \<le> ?M" using B by (simp add: n'_def)
    have en: "consumed cfg n' + 1 \<le> NumClear fm1" using nc1 c assms(6) by simp
    have p5: "divRoundUp n' ?S \<le> NumClear fm1"
      using divRoundUp_le_consumed [of n' cfg] en by linarith
    from Allocate_char [OF assms(1) p2 p3 p4 p5, of dk] en
    obtain c' dk2 where
      al: "Allocate cfg (newFileHeader cfg) fm1 dk n' =
         Some (Inr (True, c', claimN (nat (consumed cfg n')) fm1, dk2))"
      by auto
    define fm2 where "fm2 = claimN (nat (consumed cfg n')) fm1"
    have "NumClear fm2 = NumClear fm1 - consumed cfg n'"
      unfolding fm2_def using NumClear_claimN [of "nat (consumed cfg n')" fm1] en c'0 by simp
    then have "0 < NumClear fm2" using en by simp
    from marked_Find [OF this] have s0: "0 \<le> fst (Find fm2)" by simp
    from Extend_cross_step [OF gM gN nB mB fl, of dk] al s0
    show ?thesis by (simp add: fm1_def n'_def fm2_def)
  qed
qed

theorem Extend_lets_size_above_MaxFileSize_pass_witness:
  "Allocate exampleConfig (newFileHeader exampleConfig) (replicate 40 False) exampleDisk 3841 =
      Some (Inr (False, newFileHeader exampleConfig, replicate 40 False, exampleDisk)) \<and>
   (\<exists>h' fm' dk'. Extend exampleConfig (newFileHeader exampleConfig) (replicate 40 False)
        exampleDisk 3841 = Some (Inr (True, h', fm', dk')) \<and> numBytes h' = 3841) \<and>
   MaxFileSize exampleConfig < 3841"
proof -
  have 2: "2 \<le> SectorSize exampleConfig" and 3: "1 \<le> MaxFileSize exampleConfig"
    and m: "MaxFileSize exampleConfig + 1 = 3841"
    by (simp_all add: exampleConfig_def)
  have 4: "linked exampleConfig exampleDisk 0 (newFileHeader exampleConfig)"
    by (simp add: newFileHeader_def exampleConfig_def divRoundUp_def)
  have 5: "numBytes (newFileHeader exampleConfig) = 0" by (simp add: newFileHeader_def)
  have 6: "consumed exampleConfig (MaxFileSize exampleConfig + 1) \<le> NumClear (replicate 40 False)"
    unfolding m example_consumed_3841 by (simp add: NumClear_replicate)
  from Extend_lets_size_above_MaxFileSize_pass [OF example_cfg_ok 2 3 4 5 6] m
  show ?thesis by simp
qed

text \<open>The same run on the example constants, with the sectors it takes.\<close>

lemma example_Extend_3841:
  "MaxFileSize exampleConfig < 3841 \<and>
   (case Allocate exampleConfig (newFileHeader exampleConfig) (replicate 40 False) exampleDisk 3841 of
      Some (Inr (ok, _)) \<Rightarrow> \<not> ok | _ \<Rightarrow> False) \<and>
   (case Allocate exampleConfig (newFileHeader exampleConfig) (replicate 40 False) exampleDisk 0 of
      Some (Inr (ok, h, fm, dk)) \<Rightarrow>
        ok \<and> numBytes h = 0 \<and> NumClear fm = 40 \<and>
        (case Extend exampleConfig h fm dk 3841 of
           Some (Inr (ok', h', fm', dk')) \<Rightarrow>
             ok' \<and> numBytes h' = 3841 \<and> numSectors h' = 31 \<and> NumClear fm' = 8
         | _ \<Rightarrow> False)
    | _ \<Rightarrow> False)"
  by code_simp

subsection \<open>When Allocate returns false\<close>

text \<open>
  Claim C4. \<open>Allocate\<close> returns, and it returns false if and only if the requested size
  is above the maximum or the free map has fewer clear sectors than the ceiling of the
  size over the sector size; when it returns false the free map and the disk are
  unchanged.
\<close>

theorem Allocate_returns_False_iff:
  assumes "cfg_ok cfg"
    and "int (length (dataSectors h)) = NumDirect cfg"
  shows "(\<exists>r. Allocate cfg h fm dk n = Some r) \<and>
    ((\<exists>h' fm' dk'. Allocate cfg h fm dk n = Some (Inr (False, h', fm', dk'))) \<longleftrightarrow>
       MaxFileSize cfg < n \<or>
       NumClear fm < \<lceil>real_of_int n / real_of_int (SectorSize cfg)\<rceil>) \<and>
    (\<forall>h' fm' dk'. Allocate cfg h fm dk n = Some (Inr (False, h', fm', dk')) \<longrightarrow>
       fm' = fm \<and> dk' = dk)"
proof (cases "MaxFileSize cfg < n")
  case True
  then have "Allocate cfg h fm dk n = Some (Inr (False, h, fm, dk))"
    by (subst Allocate.simps) simp
  with True show ?thesis by simp
next
  case nM: False
  show ?thesis
  proof (cases "NumClear fm < divRoundUp n (SectorSize cfg)")
    case True
    with nM have "Allocate cfg h fm dk n =
      Some (Inr (False,
        h\<lparr>numBytes := n, numSectors := divRoundUp n (SectorSize cfg)\<rparr>, fm, dk))"
      by (subst Allocate.simps) (simp add: Let_def)
    with True show ?thesis by (simp add: divRoundUp_ceiling)
  next
    case False
    with nM have "n \<le> MaxFileSize cfg" "divRoundUp n (SectorSize cfg) \<le> NumClear fm"
      by simp_all
    from Allocate_returns_not_False [OF assms this, of dk] nM False
    show ?thesis by (auto simp: divRoundUp_ceiling)
  qed
qed

theorem Allocate_returns_False_iff_witness:
  "(\<exists>h' fm' dk'. Allocate exampleConfig (newFileHeader exampleConfig) (replicate 3 False)
        exampleDisk 500 = Some (Inr (False, h', fm', dk')) \<and>
      fm' = replicate 3 False \<and> dk' = exampleDisk) \<and>
   NumClear (replicate 3 False) < \<lceil>real_of_int 500 / real_of_int (SectorSize exampleConfig)\<rceil> \<and>
   (\<exists>h' fm' dk'. Allocate exampleConfig (newFileHeader exampleConfig) (replicate 3 False)
        exampleDisk 3841 = Some (Inr (False, h', fm', dk')) \<and>
      fm' = replicate 3 False \<and> dk' = exampleDisk) \<and>
   MaxFileSize exampleConfig < 3841 \<and>
   \<not> (\<exists>h' fm' dk'. Allocate exampleConfig (newFileHeader exampleConfig) (replicate 32 False)
        exampleDisk 500 = Some (Inr (False, h', fm', dk')))"
proof -
  have c: "\<lceil>real_of_int 500 / real_of_int (SectorSize exampleConfig)\<rceil> = 4"
    unfolding divRoundUp_ceiling [symmetric] by code_simp
  have m: "MaxFileSize exampleConfig = 3840" by (simp add: exampleConfig_def)
  note t = Allocate_returns_False_iff [OF example_cfg_ok example_new_length]
  have lt: "NumClear (replicate 3 False) <
      \<lceil>real_of_int 500 / real_of_int (SectorSize exampleConfig)\<rceil>"
    unfolding c NumClear_replicate by simp
  have ge: "\<not> NumClear (replicate 32 False) <
      \<lceil>real_of_int 500 / real_of_int (SectorSize exampleConfig)\<rceil>"
    unfolding c NumClear_replicate by simp
  have gt: "MaxFileSize exampleConfig < 3841" and le: "\<not> MaxFileSize exampleConfig < 500"
    unfolding m by simp_all
  from t [of "replicate 3 False" exampleDisk 500] lt
  have 1: "\<exists>h' fm' dk'. Allocate exampleConfig (newFileHeader exampleConfig) (replicate 3 False)
        exampleDisk 500 = Some (Inr (False, h', fm', dk')) \<and>
      fm' = replicate 3 False \<and> dk' = exampleDisk"
    by blast
  from t [of "replicate 3 False" exampleDisk 3841] gt
  have 2: "\<exists>h' fm' dk'. Allocate exampleConfig (newFileHeader exampleConfig) (replicate 3 False)
        exampleDisk 3841 = Some (Inr (False, h', fm', dk')) \<and>
      fm' = replicate 3 False \<and> dk' = exampleDisk"
    by blast
  from t [of "replicate 32 False" exampleDisk 500] ge le
  have 3: "\<not> (\<exists>h' fm' dk'. Allocate exampleConfig (newFileHeader exampleConfig)
        (replicate 32 False) exampleDisk 500 = Some (Inr (False, h', fm', dk')))"
    by blast
  from 1 lt 2 gt 3 show ?thesis by (intro conjI)
qed

subsection \<open>Allocate, Extend, Extend against one Allocate\<close>






subsection \<open>Sector count and length\<close>

text \<open>
  Claim C6. After a successful \<open>Allocate\<close> and after a successful \<open>Extend\<close> the
  header's sector count is the ceiling of its length over the sector size, and a header
  written to a sector and read back from it is the same header, so that the equation
  survives the round trip. \<open>Deallocate\<close>, \<open>ByteToSector\<close>, \<open>FileLength\<close> and \<open>Print\<close>
  assign no field of the header they are called on; they return none here.
\<close>

theorem sector_count_is_ceiling:
  "(Allocate cfg h fm dk n = Some (Inr (True, h', fm', dk')) \<longrightarrow>
      numSectors h' = \<lceil>real_of_int (numBytes h') / real_of_int (SectorSize cfg)\<rceil>) \<and>
   (Extend cfg h fm dk n = Some (Inr (True, h', fm', dk')) \<longrightarrow>
      numSectors h' = \<lceil>real_of_int (numBytes h') / real_of_int (SectorSize cfg)\<rceil>) \<and>
   (numSectors h = \<lceil>real_of_int (numBytes h) / real_of_int (SectorSize cfg)\<rceil> \<and>
    WriteBack h dk s = Inr dk' \<and> FetchFrom dk' s = Inr h' \<longrightarrow>
      numSectors h' = \<lceil>real_of_int (numBytes h') / real_of_int (SectorSize cfg)\<rceil>)"
proof (intro conjI impI)
  assume "Allocate cfg h fm dk n = Some (Inr (True, h', fm', dk'))"
  from Allocate_True_fields [OF this]
  show "numSectors h' = \<lceil>real_of_int (numBytes h') / real_of_int (SectorSize cfg)\<rceil>"
    by (simp add: divRoundUp_ceiling)
next
  assume "Extend cfg h fm dk n = Some (Inr (True, h', fm', dk'))"
  from Extend_True_fields [OF this]
  show "numSectors h' = \<lceil>real_of_int (numBytes h') / real_of_int (SectorSize cfg)\<rceil>"
    by (simp add: divRoundUp_ceiling)
next
  assume a: "numSectors h = \<lceil>real_of_int (numBytes h) / real_of_int (SectorSize cfg)\<rceil> \<and>
    WriteBack h dk s = Inr dk' \<and> FetchFrom dk' s = Inr h'"
  then have "FetchFrom dk' s = Inr h"
    using WriteBack_then_FetchFrom by blast
  with a have "h' = h" by simp
  with a show "numSectors h' = \<lceil>real_of_int (numBytes h') / real_of_int (SectorSize cfg)\<rceil>"
    by simp
qed

theorem sector_count_is_ceiling_witness:
  "(\<exists>h' fm' dk'.
      Allocate exampleConfig (newFileHeader exampleConfig) (replicate 32 False) exampleDisk 500
        = Some (Inr (True, h', fm', dk')) \<and>
      numBytes h' = 500 \<and> numSectors h' = 4 \<and>
      numSectors h' = \<lceil>real_of_int (numBytes h') / real_of_int (SectorSize exampleConfig)\<rceil> \<and>
      (\<exists>dk'' h''. WriteBack h' dk' 7 = Inr dk'' \<and> FetchFrom dk'' 7 = Inr h'' \<and>
         numSectors h'' =
           \<lceil>real_of_int (numBytes h'') / real_of_int (SectorSize exampleConfig)\<rceil>)) \<and>
   (\<exists>h1 fm1 dk1 h2 fm2 dk2.
      Allocate exampleConfig (newFileHeader exampleConfig) (replicate 64 False) exampleDisk 500
        = Some (Inr (True, h1, fm1, dk1)) \<and>
      Extend exampleConfig h1 fm1 dk1 3800 = Some (Inr (True, h2, fm2, dk2)) \<and>
      numBytes h2 = 3800 \<and> numSectors h2 = 30 \<and>
      numSectors h2 = \<lceil>real_of_int (numBytes h2) / real_of_int (SectorSize exampleConfig)\<rceil>)"
proof (intro conjI)
  from example_Allocate_500 obtain h' fm' dk' where
    a: "Allocate exampleConfig (newFileHeader exampleConfig) (replicate 32 False) exampleDisk 500
        = Some (Inr (True, h', fm', dk'))"
    by blast
  have "divRoundUp 500 (SectorSize exampleConfig) = 4" by code_simp
  with Allocate_True_fields [OF a] have b: "numBytes h' = 500 \<and> numSectors h' = 4" by simp
  from sector_count_is_ceiling [of exampleConfig "newFileHeader exampleConfig"
      "replicate 32 False" exampleDisk 500 h' fm' dk'] a
  have c: "numSectors h' = \<lceil>real_of_int (numBytes h') / real_of_int (SectorSize exampleConfig)\<rceil>"
    by blast
  obtain dk'' where w: "WriteBack h' dk' 7 = Inr dk''"
    by (simp add: WriteBack_def WriteSector_def)
  obtain h'' where f: "FetchFrom dk'' 7 = Inr h''"
    by (simp add: FetchFrom_def ReadSector_def)
  from sector_count_is_ceiling [where cfg = exampleConfig and h = h' and dk = dk'
      and s = 7 and dk' = dk'' and h' = h''] c w f
  have "numSectors h'' = \<lceil>real_of_int (numBytes h'') / real_of_int (SectorSize exampleConfig)\<rceil>"
    by blast
  with a b c w f
  show "\<exists>h' fm' dk'.
      Allocate exampleConfig (newFileHeader exampleConfig) (replicate 32 False) exampleDisk 500
        = Some (Inr (True, h', fm', dk')) \<and>
      numBytes h' = 500 \<and> numSectors h' = 4 \<and>
      numSectors h' = \<lceil>real_of_int (numBytes h') / real_of_int (SectorSize exampleConfig)\<rceil> \<and>
      (\<exists>dk'' h''. WriteBack h' dk' 7 = Inr dk'' \<and> FetchFrom dk'' 7 = Inr h'' \<and>
         numSectors h'' =
           \<lceil>real_of_int (numBytes h'') / real_of_int (SectorSize exampleConfig)\<rceil>)"
    by blast
next
  from example_Allocate_Extend obtain h1 fm1 dk1 h2 fm2 dk2 where
    a: "Allocate exampleConfig (newFileHeader exampleConfig) (replicate 64 False) exampleDisk 500
        = Some (Inr (True, h1, fm1, dk1))"
    and e: "Extend exampleConfig h1 fm1 dk1 3800 = Some (Inr (True, h2, fm2, dk2))"
    by blast
  have "divRoundUp 3800 (SectorSize exampleConfig) = 30" by code_simp
  with Extend_True_fields [OF e] have b: "numBytes h2 = 3800 \<and> numSectors h2 = 30" by simp
  from sector_count_is_ceiling [of exampleConfig h1 fm1 dk1 3800 h2 fm2 dk2] e
  have "numSectors h2 = \<lceil>real_of_int (numBytes h2) / real_of_int (SectorSize exampleConfig)\<rceil>"
    by blast
  with a e b
  show "\<exists>h1 fm1 dk1 h2 fm2 dk2.
      Allocate exampleConfig (newFileHeader exampleConfig) (replicate 64 False) exampleDisk 500
        = Some (Inr (True, h1, fm1, dk1)) \<and>
      Extend exampleConfig h1 fm1 dk1 3800 = Some (Inr (True, h2, fm2, dk2)) \<and>
      numBytes h2 = 3800 \<and> numSectors h2 = 30 \<and>
      numSectors h2 = \<lceil>real_of_int (numBytes h2) / real_of_int (SectorSize exampleConfig)\<rceil>"
    by blast
qed

subsection \<open>ByteToSector\<close>

text \<open>
  An offset that is negative by a sector or more ends in a read outside the table of the
  last header of the chain.
\<close>

lemma sdiv_negative:
  fixes x :: int
  assumes "0 < s" and "x \<le> - s"
  shows "x sdiv s < 0"
proof -
  have "s \<le> \<bar>x\<bar>" using assms by simp
  then have "1 \<le> \<bar>x\<bar> div s" using assms(1) by (simp add: pos_imp_zdiv_pos_iff Suc_le_eq [symmetric] int_one_le_iff_zero_less)
  moreover have "x sdiv s = - (\<bar>x\<bar> div s)"
    using assms by (simp add: signed_divide_int_def sgn_if)
  ultimately show ?thesis by simp
qed

lemma ByteToSector_negative_offset:
  assumes "cfg_ok cfg"
    and "linked cfg dk d h"
    and "off \<le> - SectorSize cfg"
  shows "ByteToSector cfg h dk off = Some (Inl ArrayIndex)"
  using assms
proof (induction d arbitrary: h off)
  case 0
  let ?S = "SectorSize cfg"
  have S: "0 < ?S" using "0.prems"(1) by (simp add: cfg_ok_def)
  from "0.prems"(2) have "numSectors h = divRoundUp (numBytes h) ?S"
    and "numBytes h \<le> (NumDirect cfg - 1) * ?S" by simp_all
  then have d: "numSectors h \<le> NumDirect cfg - 1"
    using divRoundUp_le [OF S, of "numBytes h" "NumDirect cfg - 1"] by simp
  have "off sdiv ?S < 0" using S "0.prems"(3) by (rule sdiv_negative)
  then have "ArrayLoad (dataSectors h) (off sdiv ?S) = Inl ArrayIndex"
    by (simp add: ArrayLoad_def)
  with d show ?case by (subst ByteToSector.simps) simp
next
  case (Suc d)
  let ?S = "SectorSize cfg"
  let ?D = "NumDirect cfg - 1"
  let ?s = "dataSectors h ! nat ?D"
  have S: "0 < ?S" using Suc.prems(1) by (simp add: cfg_ok_def)
  have B: "0 < ?D * ?S" using Suc.prems(1) by (rule directBytes_pos)
  from Suc.prems(2) have nb: "?D * ?S < numBytes h"
    and ns: "numSectors h = divRoundUp (numBytes h) ?S"
    and s0: "0 \<le> ?s" and lc: "linked cfg dk d (dk ?s)"
    by simp_all
  have d: "\<not> numSectors h \<le> ?D"
    using divRoundUp_gt [OF S, of ?D "numBytes h"] nb ns by simp
  have "off - ?D * ?S \<le> - ?S" using Suc.prems(3) B by simp
  from Suc.IH [OF Suc.prems(1) lc this]
  show ?case using d s0
    by (subst ByteToSector.simps) (simp add: FetchFrom_def ReadSector_def)
qed

text \<open>
  Claim C7 fails on the code. In a file with a second header \<open>ByteToSector\<close> hands
  every offset to that header, also the offsets of the first \<open>NumDirect - 1\<close> sectors:
  for every byte of the file up to the last but one of these sectors the chain is asked
  for a negative offset and the read is outside the table.
\<close>

theorem ByteToSector_fails_in_direct_part:
  assumes "cfg_ok cfg"
    and "linked cfg dk (Suc d) h"
    and "0 \<le> off"
    and "off \<le> (NumDirect cfg - 1) * SectorSize cfg - SectorSize cfg"
  shows "off < numBytes h \<and> ByteToSector cfg h dk off = Some (Inl ArrayIndex)"
proof
  let ?S = "SectorSize cfg"
  let ?D = "NumDirect cfg - 1"
  let ?s = "dataSectors h ! nat ?D"
  have S: "0 < ?S" using assms(1) by (simp add: cfg_ok_def)
  from assms(2) have nb: "?D * ?S < numBytes h"
    and ns: "numSectors h = divRoundUp (numBytes h) ?S"
    and s0: "0 \<le> ?s" and lc: "linked cfg dk d (dk ?s)"
    by simp_all
  show "off < numBytes h" using nb assms(4) S by simp
  have d: "\<not> numSectors h \<le> ?D"
    using divRoundUp_gt [OF S, of ?D "numBytes h"] nb ns by simp
  have "off - ?D * ?S \<le> - ?S" using assms(4) by simp
  from ByteToSector_negative_offset [OF assms(1) lc this]
  show "ByteToSector cfg h dk off = Some (Inl ArrayIndex)" using d s0
    by (subst ByteToSector.simps) (simp add: FetchFrom_def ReadSector_def)
qed

theorem ByteToSector_fails_in_direct_part_witness:
  "\<exists>h1 fm1 dk1.
     Allocate exampleConfig (newFileHeader exampleConfig) (replicate 80 False) exampleDisk 3840
       = Some (Inr (True, h1, fm1, dk1)) \<and>
     numBytes h1 = 3840 \<and>
     ByteToSector exampleConfig h1 dk1 0 = Some (Inl ArrayIndex) \<and>
     ByteToSector exampleConfig h1 dk1 3584 = Some (Inl ArrayIndex)"
proof -
  from example_Allocate_3840 obtain h1 dk1 where
    a: "Allocate exampleConfig (newFileHeader exampleConfig) (replicate 80 False)
       exampleDisk 3840 = Some (Inr (True, h1, claimN 31 (replicate 80 False), dk1))"
    and b: "numBytes h1 = 3840"
    and l: "linked exampleConfig dk1 1 h1"
    by blast
  have l': "linked exampleConfig dk1 (Suc 0) h1" using l unfolding One_nat_def .
  have 1: "(0::int) \<le> 0" and 2: "(0::int) \<le> 3584" by simp_all
  have 3: "0 \<le> (NumDirect exampleConfig - 1) * SectorSize exampleConfig - SectorSize exampleConfig"
    and 4: "3584 \<le> (NumDirect exampleConfig - 1) * SectorSize exampleConfig - SectorSize exampleConfig"
    by (simp_all add: exampleConfig_def)
  from ByteToSector_fails_in_direct_part [OF example_cfg_ok l' 1 3]
    ByteToSector_fails_in_direct_part [OF example_cfg_ok l' 2 4] a b
  show ?thesis by blast
qed

text \<open>
  The same on the example constants: byte 0 is in sector 0 and byte 3711 in sector 28;
  for byte 0 the second header is asked for offset -3712, and for byte 3711 for offset
  -1, where C's division gives entry 0 of its table, sector 29.
\<close>

lemma example_ByteToSector_3840:
  "case Allocate exampleConfig (newFileHeader exampleConfig) (replicate 40 False) exampleDisk 3840 of
     Some (Inr (ok, h, fm, dk)) \<Rightarrow>
       ok \<and> numBytes h = 3840 \<and> dataSectors h ! 0 = 0 \<and> dataSectors h ! 28 = 28 \<and>
       ByteToSector exampleConfig h dk 0 = Some (Inl ArrayIndex) \<and>
       ByteToSector exampleConfig h dk 3711 = Some (Inr 29) \<and>
       ByteToSector exampleConfig h dk 3712 = Some (Inr 29)
   | _ \<Rightarrow> False"
  by code_simp

subsection \<open>Write back and fetch\<close>

text \<open>
  Claim C8. For every header, and so for every one that \<open>Allocate\<close> and \<open>Extend\<close>
  produce, and every sector \<open>s\<close> of the disk, \<open>WriteBack(s)\<close> succeeds and a following
  \<open>FetchFrom(s)\<close> yields a header with the same length, sector count and table.
\<close>

theorem WriteBack_FetchFrom_round_trip:
  assumes "0 \<le> s"
  shows "\<exists>dk' h'. WriteBack h dk s = Inr dk' \<and> FetchFrom dk' s = Inr h' \<and>
           numBytes h' = numBytes h \<and> numSectors h' = numSectors h \<and>
           dataSectors h' = dataSectors h"
  using assms by (simp add: WriteBack_def FetchFrom_def WriteSector_def ReadSector_def)

theorem WriteBack_FetchFrom_round_trip_witness:
  "\<exists>h1 fm1 dk1 dk' h'.
     Allocate exampleConfig (newFileHeader exampleConfig) (replicate 32 False) exampleDisk 500
        = Some (Inr (True, h1, fm1, dk1)) \<and>
     WriteBack h1 dk1 7 = Inr dk' \<and> FetchFrom dk' 7 = Inr h' \<and>
     numBytes h' = numBytes h1 \<and> numSectors h' = numSectors h1 \<and>
     dataSectors h' = dataSectors h1"
proof -
  from example_Allocate_500 obtain h1 fm1 dk1 where
    a: "Allocate exampleConfig (newFileHeader exampleConfig) (replicate 32 False) exampleDisk 500
        = Some (Inr (True, h1, fm1, dk1))"
    by blast
  have "(0::int) \<le> 7" by simp
  from WriteBack_FetchFrom_round_trip [OF this, of h1 dk1] a
  show ?thesis by blast
qed

subsection \<open>Allocate without enough free sectors\<close>

text \<open>
  Claim C9. When the size is within the maximum and the free map has fewer clear sectors
  than the file needs, \<open>Allocate\<close> returns false and leaves the free map (and the disk)
  as they were, but the header already carries the requested length and the sector
  count computed from it.
\<close>

theorem Allocate_no_space_sets_fields:
  assumes "fileSize \<le> MaxFileSize cfg"
    and "NumClear fm < divRoundUp fileSize (SectorSize cfg)"
  shows "Allocate cfg h fm dk fileSize =
    Some (Inr (False,
      h\<lparr>numBytes := fileSize, numSectors := divRoundUp fileSize (SectorSize cfg)\<rparr>, fm, dk))"
  using assms by (subst Allocate.simps) (simp add: Let_def)

theorem Allocate_no_space_sets_fields_witness:
  "Allocate exampleConfig (newFileHeader exampleConfig) (replicate 3 False) exampleDisk 500 =
     Some (Inr (False, (newFileHeader exampleConfig)\<lparr>numBytes := 500, numSectors := 4\<rparr>,
       replicate 3 False, exampleDisk)) \<and>
   numBytes (newFileHeader exampleConfig) = 0 \<and> numSectors (newFileHeader exampleConfig) = 0"
proof -
  have a: "(500::int) \<le> MaxFileSize exampleConfig" by (simp add: exampleConfig_def)
  have b: "NumClear (replicate 3 False) < divRoundUp 500 (SectorSize exampleConfig)"
    by code_simp
  have c: "divRoundUp 500 (SectorSize exampleConfig) = 4" by code_simp
  show ?thesis
    using Allocate_no_space_sets_fields [OF a b, of "newFileHeader exampleConfig" exampleDisk]
    by (simp add: c newFileHeader_def)
qed

subsection \<open>Extend to a smaller size\<close>

text \<open>
  Claim C10. For every header of a chain and every size below its length whose sector
  count passes the two tests of \<open>Extend\<close>, \<open>Extend\<close> returns true, the header has the
  smaller length and sector count, and the free map is as it was: no sector is given
  back.
\<close>

theorem Extend_to_smaller_size:
  assumes "cfg_ok cfg"
    and "linked cfg dk d h"
    and "n < numBytes h"
    and "divRoundUp n (SectorSize cfg) \<le> MaxFileSize cfg"
    and "divRoundUp n (SectorSize cfg) \<le> NumClear fm"
  shows "\<exists>dk'. Extend cfg h fm dk n =
    Some (Inr (True, h\<lparr>numBytes := n, numSectors := divRoundUp n (SectorSize cfg)\<rparr>, fm, dk'))"
proof -
  from Extend_shrink [OF assms] obtain dk' where
    "Extend cfg h fm dk n =
      Some (Inr (True, h\<lparr>numBytes := n, numSectors := divRoundUp n (SectorSize cfg)\<rparr>, fm, dk'))"
    by blast
  then show ?thesis by blast
qed

theorem Extend_to_smaller_size_witness:
  "\<exists>h1 fm1 dk1 dk2.
     Allocate exampleConfig (newFileHeader exampleConfig) (replicate 80 False) exampleDisk 3840
       = Some (Inr (True, h1, fm1, dk1)) \<and>
     numBytes h1 = 3840 \<and> NumClear fm1 = 49 \<and>
     Extend exampleConfig h1 fm1 dk1 3800 =
       Some (Inr (True, h1\<lparr>numBytes := 3800, numSectors := 30\<rparr>, fm1, dk2))"
proof -
  from example_Allocate_3840 obtain h1 dk1 where
    a: "Allocate exampleConfig (newFileHeader exampleConfig) (replicate 80 False)
       exampleDisk 3840 = Some (Inr (True, h1, claimN 31 (replicate 80 False), dk1))"
    and b: "numBytes h1 = 3840"
    and l: "linked exampleConfig dk1 1 h1"
    by blast
  have nc: "NumClear (claimN 31 (replicate 80 False)) = 49"
    using NumClear_claimN [of 31 "replicate 80 False"] by (simp add: NumClear_replicate)
  have ns: "divRoundUp 3800 (SectorSize exampleConfig) = 30"
    by (simp add: divRoundUp_def exampleConfig_def)
  have 3: "3800 < numBytes h1" using b by simp
  have 4: "divRoundUp 3800 (SectorSize exampleConfig) \<le> MaxFileSize exampleConfig"
    by (simp add: ns) (simp add: exampleConfig_def)
  have 5: "divRoundUp 3800 (SectorSize exampleConfig) \<le> NumClear (claimN 31 (replicate 80 False))"
    by (simp add: ns nc)
  from Extend_to_smaller_size [OF example_cfg_ok l 3 4 5] a b nc ns
  show ?thesis by auto
qed

end
